theory Spec2Isabelle
  imports Main
begin

section \<open>Configuration values\<close>

text \<open>
  The generator and the orchestrator work on the values that \<open>yaml.safe_load\<close> and
  \<open>json.loads\<close> return: \<open>None\<close>, booleans, integers, strings, lists and dicts. A dict is
  an association list in insertion order; a Python dict never holds a key twice, which
  \<open>wf_jv\<close> states. Keys are strings, as in every JSON object. Floating-point numbers are
  left out of the model, and values are trees (no two places share one mutable object).
\<close>

datatype jv =
    JNull
  | JBool bool
  | JInt int
  | JStr string
  | JList "jv list"
  | JDict "(string \<times> jv) list"

type_synonym jdict = "(string \<times> jv) list"

text \<open>\<open>d.get(k)\<close>: the value stored under \<open>k\<close>, \<open>None\<close> when there is none.\<close>

fun dict_get :: "jdict \<Rightarrow> string \<Rightarrow> jv" where
  "dict_get [] k = JNull"
| "dict_get ((k', v) # d) k = (if k' = k then v else dict_get d k)"

text \<open>\<open>d[k] = v\<close>: an existing key keeps its position, a new key goes last.\<close>

fun dict_set :: "jdict \<Rightarrow> string \<Rightarrow> jv \<Rightarrow> jdict" where
  "dict_set [] k v = [(k, v)]"
| "dict_set ((k', v') # d) k v = (if k' = k then (k, v) # d else (k', v') # dict_set d k v)"

text \<open>\<open>k in d\<close>.\<close>

fun has_key :: "jdict \<Rightarrow> string \<Rightarrow> bool" where
  "has_key [] k = False"
| "has_key ((k', v) # d) k = (k' = k \<or> has_key d k)"

text \<open>\<open>d.get(k, dflt)\<close> and \<open>d.setdefault(k, v)\<close>.\<close>

definition get_default :: "jdict \<Rightarrow> string \<Rightarrow> jv \<Rightarrow> jv" where
  "get_default d k dflt = (if has_key d k then dict_get d k else dflt)"

definition setdefault :: "jdict \<Rightarrow> string \<Rightarrow> jv \<Rightarrow> jdict" where
  "setdefault d k v = (if has_key d k then d else dict_set d k v)"

fun is_dict :: "jv \<Rightarrow> bool" where
  "is_dict (JDict d) = True"
| "is_dict v = False"

fun wf_jv :: "jv \<Rightarrow> bool" where
  "wf_jv (JList xs) = list_all wf_jv xs"
| "wf_jv (JDict d) = (distinct (map fst d) \<and> list_all (\<lambda>kv. wf_jv (snd kv)) d)"
| "wf_jv v = True"

section \<open>Config composer: merging\<close>

text \<open>
  \<^verbatim>\<open>
  def deep_merge(a, b):
      if isinstance(a, dict) and isinstance(b, dict):
          out = dict(a)
          for k, v in b.items():
              out[k] = deep_merge(out.get(k), v)
          return out
      return copy.deepcopy(b)
  \<close>
  \<open>merge_items out b\<close> is the loop over \<open>b.items()\<close> with \<open>out\<close> as it stands;
  \<open>copy.deepcopy\<close> is the identity on values.
\<close>

fun deep_merge :: "jv \<Rightarrow> jv \<Rightarrow> jv"
  and merge_items :: "jdict \<Rightarrow> jdict \<Rightarrow> jdict" where
  "deep_merge (JDict a) (JDict b) = JDict (merge_items a b)"
| "deep_merge a b = b"
| "merge_items out [] = out"
| "merge_items out ((k, v) # b) =
     merge_items (dict_set out k (deep_merge (dict_get out k) v)) b"

text \<open>The exceptions that the model keeps apart.\<close>

datatype py_error = TypeError | AttributeError | ValueError | OSError | OtherException

text \<open>Python's truth value of a configuration value (\<open>if x\<close>, \<open>x or y\<close>, \<open>not x\<close>).\<close>

fun truthy :: "jv \<Rightarrow> bool" where
  "truthy JNull = False"
| "truthy (JBool b) = b"
| "truthy (JInt n) = (n \<noteq> 0)"
| "truthy (JStr s) = (s \<noteq> [])"
| "truthy (JList xs) = (xs \<noteq> [])"
| "truthy (JDict d) = (d \<noteq> [])"

definition py_or :: "jv \<Rightarrow> jv \<Rightarrow> jv" where
  "py_or a b = (if truthy a then a else b)"

text \<open>
  \<open>for x in v\<close>: a list yields its elements, a dict its keys, a string its characters;
  \<open>None\<close>, a boolean and an integer raise \<open>TypeError\<close>.
\<close>

fun py_iter :: "jv \<Rightarrow> py_error + jv list" where
  "py_iter (JList xs) = Inr xs"
| "py_iter (JDict d) = Inr (map (\<lambda>kv. JStr (fst kv)) d)"
| "py_iter (JStr s) = Inr (map (\<lambda>c. JStr [c]) s)"
| "py_iter v = Inl TypeError"

text \<open>Sequencing of steps that may raise: the first exception ends the computation.\<close>

definition and_then :: "'e + 'a \<Rightarrow> ('a \<Rightarrow> 'e + 'b) \<Rightarrow> 'e + 'b" where
  "and_then r f = (case r of Inl e \<Rightarrow> Inl e | Inr x \<Rightarrow> f x)"

text \<open>A comprehension or a loop whose body may raise: the steps run left to right.\<close>

fun map_result :: "('a \<Rightarrow> py_error + 'b) \<Rightarrow> 'a list \<Rightarrow> py_error + 'b list" where
  "map_result f [] = Inr []"
| "map_result f (x # xs) =
     and_then (f x) (\<lambda>y. and_then (map_result f xs) (\<lambda>ys. Inr (y # ys)))"

text \<open>
  \<^verbatim>\<open>
  def merge_named_list(base_list, override_map=None, add_list=None):
      base_list = base_list or []
      idx = {item.get("name"): i for i, item in enumerate(base_list)
             if isinstance(item, dict) and "name" in item}
      out = [copy.deepcopy(x) for x in base_list]
      for name, patch in (override_map or {}).items():
          if name in idx:
              i = idx[name]
              out[i] = deep_merge(out[i], patch)
      for item in (add_list or []):
          out.append(copy.deepcopy(item))
      return [x for x in out if not x.get("disabled")]
  \<close>
  \<open>build_idx\<close> is the dict comprehension (a later entry of the same name wins; a list or
  dict as a name is unhashable), \<open>apply_overrides\<close> the loop over the override map,
  \<open>drop_disabled\<close> the final comprehension (\<open>x.get\<close> exists on dicts only).
\<close>

fun hashable :: "jv \<Rightarrow> bool" where
  "hashable (JList xs) = False"
| "hashable (JDict d) = False"
| "hashable v = True"

fun build_idx :: "jv list \<Rightarrow> nat \<Rightarrow> (jv \<rightharpoonup> nat) \<Rightarrow> py_error + (jv \<rightharpoonup> nat)" where
  "build_idx [] i idx = Inr idx"
| "build_idx (JDict d # items) i idx =
     (if has_key d ''name''
      then (if hashable (dict_get d ''name'')
            then build_idx items (Suc i) (idx(dict_get d ''name'' \<mapsto> i))
            else Inl TypeError)
      else build_idx items (Suc i) idx)"
| "build_idx (item # items) i idx = build_idx items (Suc i) idx"

fun apply_overrides :: "(jv \<rightharpoonup> nat) \<Rightarrow> jdict \<Rightarrow> jv list \<Rightarrow> jv list" where
  "apply_overrides idx [] out = out"
| "apply_overrides idx ((name, patch) # ov) out =
     (case idx (JStr name) of
        Some i \<Rightarrow> apply_overrides idx ov (out[i := deep_merge (out ! i) patch])
      | None \<Rightarrow> apply_overrides idx ov out)"

fun is_disabled :: "jv \<Rightarrow> bool" where
  "is_disabled (JDict d) = truthy (dict_get d ''disabled'')"
| "is_disabled v = False"

fun drop_disabled :: "jv list \<Rightarrow> py_error + jv list" where
  "drop_disabled [] = Inr []"
| "drop_disabled (JDict d # xs) =
     and_then (drop_disabled xs)
       (\<lambda>ys. Inr (if truthy (dict_get d ''disabled'') then ys else JDict d # ys))"
| "drop_disabled (x # xs) = Inl AttributeError"

fun dict_items :: "jv \<Rightarrow> py_error + jdict" where
  "dict_items (JDict d) = Inr d"
| "dict_items v = Inl AttributeError"

definition merge_named_list :: "jv \<Rightarrow> jv \<Rightarrow> jv \<Rightarrow> py_error + jv list" where
  "merge_named_list base_list override_map add_list =
     and_then (py_iter (py_or base_list (JList []))) (\<lambda>base.
     and_then (build_idx base 0 Map.empty) (\<lambda>idx.
     and_then (dict_items (py_or override_map (JDict []))) (\<lambda>ov.
     and_then (py_iter (py_or add_list (JList []))) (\<lambda>adds.
       drop_disabled (apply_overrides idx ov base @ adds)))))"


text \<open>\<open>named item k\<close>: the item is a dict that has a \<open>name\<close> key, with value \<open>k\<close>.\<close>

fun named :: "jv \<Rightarrow> jv \<Rightarrow> bool" where
  "named (JDict d) k = (has_key d ''name'' \<and> dict_get d ''name'' = k)"
| "named v k = False"

text \<open>
  \<open>overridden base ov i n\<close>: the override map has an entry for the name \<open>n\<close>, base entry
  \<open>i\<close> is a dict of that name, and no later base entry has the same name (of two entries
  of one name the comprehension that builds \<open>idx\<close> keeps the later).
\<close>

definition overridden :: "jv list \<Rightarrow> jdict \<Rightarrow> nat \<Rightarrow> string \<Rightarrow> bool" where
  "overridden base ov i n =
     (has_key ov n \<and> named (base ! i) (JStr n) \<and>
      (\<forall>j<length base. i < j \<longrightarrow> \<not> named (base ! j) (JStr n)))"


section \<open>Config composer: variable resolution\<close>

text \<open>
  \<open>str(x)\<close>: a string is itself; how Python renders any other value is the builtin's
  business and is taken as the parameter \<open>py_repr\<close>.
\<close>

definition py_str :: "(jv \<Rightarrow> string) \<Rightarrow> jv \<Rightarrow> string" where
  "py_str py_repr v = (case v of JStr s \<Rightarrow> s | _ \<Rightarrow> py_repr v)"

text \<open>
  \<^verbatim>\<open>_VAR_RE = re.compile(r"\$\{([A-Z0-9_]+)\}")\<close>

  \<open>var_char\<close> is the character class; \<open>var_token_at s\<close> is a match of the pattern at the
  start of \<open>s\<close>: the name (group 1) and the text after the match. The class holds
  neither \<open>}\<close> nor \<open>$\<close>, so the greedy run of class characters is the only candidate.
\<close>

definition var_char :: "char \<Rightarrow> bool" where
  "var_char c = (c \<in> set ''ABCDEFGHIJKLMNOPQRSTUVWXYZ0123456789_'')"

fun var_token_at :: "string \<Rightarrow> (string \<times> string) option" where
  "var_token_at (c1 # c2 # t) =
     (if c1 = CHR ''$'' \<and> c2 = CHR ''{''
      then (case dropWhile var_char t of
              [] \<Rightarrow> None
            | c3 # rest \<Rightarrow>
                if takeWhile var_char t \<noteq> [] \<and> c3 = CHR ''}''
                then Some (takeWhile var_char t, rest) else None)
      else None)"
| "var_token_at s = None"

lemma var_token_at_shorter: "var_token_at s = Some (name, rest) \<Longrightarrow> length rest < length s"
proof (cases s rule: var_token_at.cases)
  case (1 c1 c2 t)
  assume a: "var_token_at s = Some (name, rest)"
  have "length (dropWhile var_char t) \<le> length t" by (rule length_dropWhile_le)
  with a 1 show ?thesis by (auto split: if_splits list.splits)
qed simp_all

text \<open>
  \<^verbatim>\<open>
  def resolve_vars(obj, vars_map):
      if isinstance(obj, dict):
          return {k: resolve_vars(v, vars_map) for k, v in obj.items()}
      if isinstance(obj, list):
          return [resolve_vars(x, vars_map) for x in obj]
      if isinstance(obj, str):
          def repl(m):
              key = m.group(1)
              return str(vars_map.get(key, os.environ.get(key, m.group(0))))
          return _VAR_RE.sub(repl, obj)
      return obj
  \<close>
  \<open>environ\<close> is \<open>os.environ\<close>. \<open>sub_vars\<close> is \<open>_VAR_RE.sub(repl, obj)\<close>: matches are
  found left to right, do not overlap, and a replacement is not scanned again.
\<close>

definition repl :: "(jv \<Rightarrow> string) \<Rightarrow> jdict \<Rightarrow> (string \<rightharpoonup> string) \<Rightarrow> string \<Rightarrow> string" where
  "repl py_repr vars_map environ key =
     (if has_key vars_map key then py_str py_repr (dict_get vars_map key)
      else (case environ key of Some e \<Rightarrow> e | None \<Rightarrow> ''${'' @ key @ ''}''))"

function sub_vars :: "(jv \<Rightarrow> string) \<Rightarrow> jdict \<Rightarrow> (string \<rightharpoonup> string) \<Rightarrow> string \<Rightarrow> string" where
  "sub_vars py_repr vars_map environ [] = []"
| "sub_vars py_repr vars_map environ (c # cs) =
     (case var_token_at (c # cs) of
        Some (name, rest) \<Rightarrow> repl py_repr vars_map environ name @ sub_vars py_repr vars_map environ rest
      | None \<Rightarrow> c # sub_vars py_repr vars_map environ cs)"
  by pat_completeness auto
termination
  by (relation "measure (\<lambda>(r, v, e, s). length s)") (auto dest: var_token_at_shorter)

fun resolve_vars :: "(jv \<Rightarrow> string) \<Rightarrow> jdict \<Rightarrow> (string \<rightharpoonup> string) \<Rightarrow> jv \<Rightarrow> jv" where
  "resolve_vars py_repr vars_map environ (JDict d) =
     JDict (map (\<lambda>(k, v). (k, resolve_vars py_repr vars_map environ v)) d)"
| "resolve_vars py_repr vars_map environ (JList xs) =
     JList (map (resolve_vars py_repr vars_map environ) xs)"
| "resolve_vars py_repr vars_map environ (JStr s) = JStr (sub_vars py_repr vars_map environ s)"
| "resolve_vars py_repr vars_map environ v = v"

text \<open>
  \<open>has_var_token s\<close>: the pattern matches somewhere in \<open>s\<close> (\<open>_VAR_RE.search(s)\<close>);
  \<open>token_free obj\<close>: no string value of \<open>obj\<close> holds a match.
\<close>

fun has_var_token :: "string \<Rightarrow> bool" where
  "has_var_token [] = False"
| "has_var_token (c # cs) = (var_token_at (c # cs) \<noteq> None \<or> has_var_token cs)"

fun token_free :: "jv \<Rightarrow> bool" where
  "token_free (JStr s) = (\<not> has_var_token s)"
| "token_free (JList xs) = list_all token_free xs"
| "token_free (JDict d) = list_all (\<lambda>kv. token_free (snd kv)) d"
| "token_free v = True"



section \<open>Template registry: resolution\<close>

text \<open>\<open>s.startswith(p)\<close>, \<open>s.endswith(p)\<close> and \<open>k in t\<close> on strings.\<close>

fun starts_with :: "string \<Rightarrow> string \<Rightarrow> bool" where
  "starts_with s [] = True"
| "starts_with [] (p # ps) = False"
| "starts_with (c # cs) (p # ps) = (c = p \<and> starts_with cs ps)"

definition ends_with :: "string \<Rightarrow> string \<Rightarrow> bool" where
  "ends_with s p = starts_with (rev s) (rev p)"

fun is_substr :: "string \<Rightarrow> string \<Rightarrow> bool" where
  "is_substr k [] = (k = [])"
| "is_substr k (c # cs) = (starts_with (c # cs) k \<or> is_substr k cs)"

text \<open>
  \<open>s.lower()\<close> is Unicode's case mapping. What it does to a string is the builtin's
  business: the functions that call it take it as the parameter \<open>py_lower\<close>, and what is
  proved of them holds for every such function. \<open>ascii_lower\<close> is the mapping on ASCII
  text (the letters \<open>A\<close> to \<open>Z\<close> go to \<open>a\<close> to \<open>z\<close>, every other character is kept); it is
  the instance taken in the concrete examples.
\<close>

definition lower_char :: "char \<Rightarrow> char" where
  "lower_char c =
     (case map_of (zip ''ABCDEFGHIJKLMNOPQRSTUVWXYZ'' ''abcdefghijklmnopqrstuvwxyz'') c of
        Some l \<Rightarrow> l
      | None \<Rightarrow> c)"

definition ascii_lower :: "string \<Rightarrow> string" where
  "ascii_lower s = map lower_char s"

text \<open>
  \<^verbatim>\<open>
  def best_match_by_topic(reg: Dict[str, dict], topic: str) -> Optional[str]:
      t = (topic or "").lower()
      best, score = None, 0
      for name, tpl in reg.items():
          kws = [k.lower() for k in tpl.get("detect", []) if isinstance(k, str)]
          sc = sum(1 for k in kws if k in t) if kws else 0
          if sc > score:
              best, score = name, sc
      return best
  \<close>
  The registry is the dict that \<open>scan_templates\<close> builds, in insertion order; each of its
  values is a dict. \<open>detect_of\<close> is \<open>tpl.get("detect", [])\<close>, \<open>kw_list\<close> the comprehension,
  \<open>kw_score\<close> the score \<open>sc\<close> of one template, \<open>best_loop\<close> the loop with \<open>best\<close> and
  \<open>score\<close> as they stand.
\<close>

definition detect_of :: "jdict \<Rightarrow> jv" where
  "detect_of tpl = (if has_key tpl ''detect'' then dict_get tpl ''detect'' else JList [])"

fun kw_list :: "(string \<Rightarrow> string) \<Rightarrow> jv list \<Rightarrow> string list" where
  "kw_list py_lower [] = []"
| "kw_list py_lower (JStr k # ks) = py_lower k # kw_list py_lower ks"
| "kw_list py_lower (v # ks) = kw_list py_lower ks"

definition kw_score :: "(string \<Rightarrow> string) \<Rightarrow> string \<Rightarrow> jdict \<Rightarrow> py_error + nat" where
  "kw_score py_lower t tpl =
     and_then (py_iter (detect_of tpl))
       (\<lambda>ks. Inr (length (filter (\<lambda>k. is_substr k t) (kw_list py_lower ks))))"

fun best_loop :: "(string \<Rightarrow> string) \<Rightarrow> string \<Rightarrow> (string \<times> jdict) list \<Rightarrow> string option \<Rightarrow> nat
    \<Rightarrow> py_error + string option" where
  "best_loop py_lower t [] best score = Inr best"
| "best_loop py_lower t ((name, tpl) # reg) best score =
     (case kw_score py_lower t tpl of
        Inl e \<Rightarrow> Inl e
      | Inr sc \<Rightarrow> if sc > score then best_loop py_lower t reg (Some name) sc
                  else best_loop py_lower t reg best score)"

definition best_match_by_topic ::
    "(string \<Rightarrow> string) \<Rightarrow> (string \<times> jdict) list \<Rightarrow> string option \<Rightarrow> py_error + string option" where
  "best_match_by_topic py_lower reg topic =
     best_loop py_lower (py_lower (case topic of None \<Rightarrow> [] | Some s \<Rightarrow> s)) reg None 0"

text \<open>
  \<^verbatim>\<open>
  def norm_cmd_list(x: Any) -> List[str]:
      if isinstance(x, list) and all(isinstance(s, str) for s in x):
          return x
      raise ValueError("command must be a list[str]")

  def validate_template(kind: str, tpl: dict):
      if not isinstance(tpl, dict):
          raise ValueError(f"{kind} template must be a dict")
      for key in ("services", "tests"):
          if key not in tpl or not isinstance(tpl[key], list):
              raise ValueError(f"{kind} template missing/invalid '{key}' list")
      for svc in tpl.get("services", []):
          if not all(k in svc for k in ("name","cwd","start")):
              raise ValueError(f"{kind} service missing fields: {svc}")
          norm_cmd_list(svc["start"])
      for t in tpl.get("tests", []):
          if not all(k in t for k in ("name","type","cwd","cmd")):
              raise ValueError(f"{kind} test missing fields: {t}")
          norm_cmd_list(t["cmd"])
  \<close>
  \<open>py_in k x\<close> is \<open>k in x\<close> for a string \<open>k\<close>: key membership on a dict, element
  membership on a list, the substring test on a string, a \<open>TypeError\<close> on anything else.
  \<open>has_all x ks\<close> is \<open>all(k in x for k in ks)\<close>, which stops at the first key that is
  missing. \<open>check_entry\<close> is the body of either loop: \<open>x[key]\<close> is the stored value on a
  dict that has the key and a \<open>TypeError\<close> on a list or a string. \<open>list_under\<close> is the
  list stored under a key, if there is one. \<open>kind\<close> only shows in the messages.
\<close>

fun is_str :: "jv \<Rightarrow> bool" where
  "is_str (JStr s) = True"
| "is_str v = False"

definition norm_cmd_list :: "jv \<Rightarrow> py_error + jv" where
  "norm_cmd_list x =
     (case x of
        JList xs \<Rightarrow> if list_all is_str xs then Inr x else Inl ValueError
      | _ \<Rightarrow> Inl ValueError)"

fun py_in :: "string \<Rightarrow> jv \<Rightarrow> py_error + bool" where
  "py_in k (JDict d) = Inr (has_key d k)"
| "py_in k (JList xs) = Inr (JStr k \<in> set xs)"
| "py_in k (JStr s) = Inr (is_substr k s)"
| "py_in k v = Inl TypeError"

fun has_all :: "jv \<Rightarrow> string list \<Rightarrow> py_error + bool" where
  "has_all x [] = Inr True"
| "has_all x (k # ks) = and_then (py_in k x) (\<lambda>b. if b then has_all x ks else Inr False)"

definition check_entry :: "string list \<Rightarrow> string \<Rightarrow> jv \<Rightarrow> py_error + unit" where
  "check_entry req cmd_key x =
     and_then (has_all x req) (\<lambda>ok.
       if \<not> ok then Inl ValueError
       else (case x of
               JDict d \<Rightarrow> and_then (norm_cmd_list (dict_get d cmd_key)) (\<lambda>c. Inr ())
             | _ \<Rightarrow> Inl TypeError))"

definition list_under :: "jdict \<Rightarrow> string \<Rightarrow> jv list option" where
  "list_under tpl key =
     (if has_key tpl key then (case dict_get tpl key of JList xs \<Rightarrow> Some xs | _ \<Rightarrow> None)
      else None)"

definition validate_template :: "jdict \<Rightarrow> py_error + unit" where
  "validate_template tpl =
     (case list_under tpl ''services'' of
        None \<Rightarrow> Inl ValueError
      | Some svcs \<Rightarrow>
          (case list_under tpl ''tests'' of
             None \<Rightarrow> Inl ValueError
           | Some ts \<Rightarrow>
               and_then (map_result (check_entry [''name'', ''cwd'', ''start''] ''start'') svcs) (\<lambda>a.
               and_then (map_result (check_entry [''name'', ''type'', ''cwd'', ''cmd''] ''cmd'') ts)
                 (\<lambda>b. Inr ()))))"

text \<open>
  \<^verbatim>\<open>
  def hydrate_files_from_stack_dir(tpl: dict) -> dict:
      base = Path(tpl.get("__path", "")).parent
      if not base.exists():
          return tpl
      existing = dict(tpl.get("files") or {})
      discovered = {}
      for sub in ("backend", "frontend"):
          root = base / sub
          if not root.exists():
              continue
          for p in root.rglob("*"):
              ...
              discovered[rel] = text
      for k, v in discovered.items():
          existing.setdefault(k, v)
      if existing:
          tpl["files"] = existing
          if not tpl.get("editable_files"):
              tpl["editable_files"] = [
                  k for k in existing
                  if k.endswith((".py", ".js", ".ts", ".tsx", ".html", ".css"))
              ][:30]
      return tpl
  \<close>
  What lies outside the function is the record \<open>template_env\<close>. \<open>stack_path c\<close> is
  \<open>str(root / c / "stack.test.yaml")\<close>. \<open>base_exists p\<close> is \<open>Path(p).parent.exists()\<close>,
  which raises when \<open>p\<close> is not a path. \<open>dict_of x\<close> is the builtin \<open>dict(x)\<close> on a value
  that is not a dict (on a dict it is a copy). \<open>discovered p\<close> is the dict that the two
  directory walks leave, or the exception that ends them. \<open>generate topic name\<close> is the
  rest of \<open>load_or_autogen_template\<close> from the call of \<open>autogen_template\<close> on: the
  generator's answer, saved under the derived name, scanned again, hydrated and
  validated.
\<close>

record template_env =
  stack_path :: "string \<Rightarrow> string"
  base_exists :: "jv \<Rightarrow> py_error + bool"
  dict_of :: "jv \<Rightarrow> py_error + jdict"
  discovered :: "jv \<Rightarrow> py_error + jdict"
  generate :: "string \<Rightarrow> string option \<Rightarrow> py_error + jdict"

definition py_dict :: "template_env \<Rightarrow> jv \<Rightarrow> py_error + jdict" where
  "py_dict env v = (case v of JDict d \<Rightarrow> Inr d | _ \<Rightarrow> dict_of env v)"

definition editable :: "string \<Rightarrow> bool" where
  "editable k = list_ex (ends_with k) [''.py'', ''.js'', ''.ts'', ''.tsx'', ''.html'', ''.css'']"

definition hydrate_files_from_stack_dir :: "template_env \<Rightarrow> jdict \<Rightarrow> py_error + jdict" where
  "hydrate_files_from_stack_dir env tpl =
     and_then (base_exists env (get_default tpl ''__path'' (JStr []))) (\<lambda>ex.
       if \<not> ex then Inr tpl
       else
         and_then (py_dict env (py_or (dict_get tpl ''files'') (JDict []))) (\<lambda>existing0.
         and_then (discovered env (get_default tpl ''__path'' (JStr []))) (\<lambda>disc.
           let existing = fold (\<lambda>kv d. setdefault d (fst kv) (snd kv)) disc existing0 in
           if existing = [] then Inr tpl
           else
             let tpl1 = dict_set tpl ''files'' (JDict existing) in
             Inr (if truthy (dict_get tpl1 ''editable_files'') then tpl1
                  else dict_set tpl1 ''editable_files''
                         (JList (map JStr (take 30 (filter editable (map fst existing)))))))))"

text \<open>
  \<^verbatim>\<open>
  def load_or_autogen_template(kind, topic, name):
      root = TEMPLATES_DIR_BE if kind == "backend" else TEMPLATES_DIR_FE
      reg  = scan_templates(root)
      chosen = name or best_match_by_topic(reg, topic or "")
      if chosen and chosen in reg:
          tpl = reg[chosen]
          if "__path" not in tpl:
              tpl["__path"] = str(root / chosen / "stack.test.yaml")
          tpl = hydrate_files_from_stack_dir(tpl)
          validate_template(kind, tpl)
          print(f"Using existing {kind} stack: {chosen}")
          return tpl
      print(f"No {kind} stack matched; auto-generating from topic...")
      tpl = autogen_template(kind, topic or "generic project")
      ...
      return tpl
  \<close>
  \<open>reg\<close> is the registry that \<open>scan_templates(root)\<close> returned. \<open>use_existing\<close> is the
  body of the \<open>if\<close>, \<open>call_autogen\<close> what follows it. The result says which of the two
  returned (which of the two messages was printed) next to the template returned.
\<close>

datatype resolution = UseExisting string jdict | Autogenerated jdict

definition with_path :: "template_env \<Rightarrow> string \<Rightarrow> jdict \<Rightarrow> jdict" where
  "with_path env chosen tpl =
     (if has_key tpl ''__path'' then tpl
      else dict_set tpl ''__path'' (JStr (stack_path env chosen)))"

definition use_existing :: "template_env \<Rightarrow> string \<Rightarrow> jdict \<Rightarrow> py_error + resolution" where
  "use_existing env chosen tpl =
     and_then (hydrate_files_from_stack_dir env (with_path env chosen tpl)) (\<lambda>tpl2.
     and_then (validate_template tpl2) (\<lambda>u. Inr (UseExisting chosen tpl2)))"

definition call_autogen :: "template_env \<Rightarrow> string option \<Rightarrow> string option \<Rightarrow> py_error + resolution" where
  "call_autogen env topic name =
     and_then
       (generate env (case topic of None \<Rightarrow> ''generic project''
                      | Some s \<Rightarrow> if s = [] then ''generic project'' else s) name)
       (\<lambda>tpl. Inr (Autogenerated tpl))"

definition load_or_autogen_template ::
    "template_env \<Rightarrow> (string \<Rightarrow> string) \<Rightarrow> (string \<times> jdict) list \<Rightarrow> string option \<Rightarrow> string option
     \<Rightarrow> py_error + resolution" where
  "load_or_autogen_template env py_lower reg topic name =
     and_then
       (case name of
          Some n \<Rightarrow>
            if n \<noteq> [] then Inr (Some n)
            else best_match_by_topic py_lower reg (Some (case topic of None \<Rightarrow> [] | Some s \<Rightarrow> s))
        | None \<Rightarrow> best_match_by_topic py_lower reg (Some (case topic of None \<Rightarrow> [] | Some s \<Rightarrow> s)))
       (\<lambda>chosen.
          case chosen of
            Some c \<Rightarrow>
              if c \<noteq> []
              then (case map_of reg c of
                      Some tpl \<Rightarrow> use_existing env c tpl
                    | None \<Rightarrow> call_autogen env topic name)
              else call_autogen env topic name
          | None \<Rightarrow> call_autogen env topic name)"

text \<open>
  The vocabulary of the statements. \<open>valid_entry\<close> and \<open>valid_template\<close> say what
  \<open>validate_template\<close> asks for: \<open>services\<close> and \<open>tests\<close> are lists of dicts, each with
  the required keys and with a command that is a list of strings.
\<close>

definition valid_entry :: "string list \<Rightarrow> string \<Rightarrow> jv \<Rightarrow> bool" where
  "valid_entry req cmd_key x =
     (case x of
        JDict d \<Rightarrow> list_all (has_key d) req \<and>
                   (case dict_get d cmd_key of JList c \<Rightarrow> list_all is_str c | _ \<Rightarrow> False)
      | _ \<Rightarrow> False)"

definition valid_template :: "jdict \<Rightarrow> bool" where
  "valid_template tpl =
     (has_key tpl ''services'' \<and> has_key tpl ''tests'' \<and>
      (case dict_get tpl ''services'' of
         JList svcs \<Rightarrow> list_all (valid_entry [''name'', ''cwd'', ''start''] ''start'') svcs
       | _ \<Rightarrow> False) \<and>
      (case dict_get tpl ''tests'' of
         JList ts \<Rightarrow> list_all (valid_entry [''name'', ''type'', ''cwd'', ''cmd''] ''cmd'') ts
       | _ \<Rightarrow> False))"

text \<open>A template directory and a registry, for concrete runs.\<close>

definition flask_template :: jdict where
  "flask_template =
     [(''detect'', JList [JStr ''Flask'', JStr ''python'']),
      (''services'', JList [JDict [(''name'', JStr ''backend''), (''cwd'', JStr ''backend''),
                                   (''start'', JList [JStr ''flask'', JStr ''run''])]]),
      (''tests'', JList [])]"

definition fastapi_template :: jdict where
  "fastapi_template =
     [(''detect'', JList [JStr ''api'', JStr ''fast'']),
      (''services'', JList []),
      (''tests'', JList [JDict [(''name'', JStr ''api''), (''type'', JStr ''junit''),
                                (''cwd'', JStr ''backend''), (''cmd'', JList [JStr ''pytest''])]])]"

definition broken_template :: jdict where
  "broken_template = [(''detect'', JList [JStr ''django'']), (''tests'', JList [])]"

definition generated_template :: jdict where
  "generated_template = [(''services'', JList []), (''tests'', JList [])]"

definition demo_env :: template_env where
  "demo_env =
     \<lparr>stack_path = (\<lambda>c. ''templates/backend/'' @ c @ ''/stack.test.yaml''),
      base_exists = (\<lambda>p. Inr True),
      dict_of = (\<lambda>v. Inl TypeError),
      discovered = (\<lambda>p. Inr [(''backend/app.py'', JStr ''app''), (''backend/logo.png.txt'', JStr ''x'')]),
      generate = (\<lambda>topic name. Inr generated_template)\<rparr>"

definition demo_registry :: "(string \<times> jdict) list" where
  "demo_registry =
     [(''flask'', flask_template), (''fastapi'', fastapi_template), (''django'', broken_template)]"



section \<open>Config composer: path normalisation\<close>

text \<open>
  \<^verbatim>\<open>
  def is_safe_relpath(rel: str, allowed_roots=("backend/", "frontend/")) -> bool:
      if rel.startswith("../") or rel.startswith("/") or rel.startswith("content/"):
          return False
      return any(rel.startswith(ar) for ar in allowed_roots)
  \<close>
\<close>

definition is_safe_relpath :: "string \<Rightarrow> bool" where
  "is_safe_relpath rel =
     (if starts_with rel ''../'' \<or> starts_with rel ''/'' \<or> starts_with rel ''content/''
      then False
      else (starts_with rel ''backend/'' \<or> starts_with rel ''frontend/''))"

text \<open>
  \<^verbatim>\<open>
  def _expand_project_paths(merged: dict, slug: str) -> dict:
      def expand_cwd(cwd: str) -> str:
          cwd = (cwd or "").replace("\\", "/")
          while cwd.startswith("./"):
              cwd = cwd[2:]
          if cwd == "backend" or cwd.startswith("backend/"):
              return f"content/code/{slug}/{cwd}"
          if cwd == "frontend" or cwd.startswith("frontend/"):
              return f"content/code/{slug}/{cwd}"
          if not is_safe_relpath((cwd + ("/" if not cwd.endswith("/") else ""))):
              raise ValueError(f"Illegal test/service cwd: {cwd}")
          return f"content/code/{slug}/{cwd}"

      merged = copy.deepcopy(merged)
      for svc in merged.get("services", []):
          if "cwd" in svc:
              svc["cwd"] = expand_cwd(svc["cwd"])
      for t in merged.get("tests", []):
          if "cwd" in t:
              t["cwd"] = expand_cwd(t["cwd"])
          if t.get("type") == "junit" and t.get("junit_xml"):
              j = t["junit_xml"].replace("\\", "/")
              if not str(j).startswith("content/"):
                  t["junit_xml"] = f"content/code/{slug}/{j}"
          if "install" in t and isinstance(t["install"], list):
              t["install"] = [list(map(str, cmd)) for cmd in t["install"]]
          if "cmd" in t:
              t["cmd"] = [str(x) for x in t["cmd"]]
      return merged
  \<close>
  \<open>replace_backslash\<close> is \<open>.replace("\\", "/")\<close> (the backslash is character \<open>0x5C\<close>),
  \<open>strip_dot_slash\<close> the \<open>while\<close> loop. \<open>str_replace_backslash\<close> is the method call on a
  value: only a string has \<open>replace\<close>. \<open>cwd_step\<close> is the \<open>cwd\<close> statement on one entry
  (\<open>"cwd" in x\<close> is key membership on a dict, a substring test on a string, element
  membership on a list, and a \<open>TypeError\<close> otherwise; \<open>x["cwd"]\<close> exists on a dict only),
  \<open>junit_step\<close>, \<open>install_step\<close> and \<open>cmd_step\<close> the three statements that follow it in
  the loop over the tests, \<open>for_each_in\<close> one loop: the entries are changed in place,
  so the result is stored when the value iterated is a list.
\<close>

definition replace_backslash :: "string \<Rightarrow> string" where
  "replace_backslash s = map (\<lambda>c. if c = CHR 0x5C then CHR ''/'' else c) s"

fun strip_dot_slash :: "string \<Rightarrow> string" where
  "strip_dot_slash (c1 # c2 # s) =
     (if c1 = CHR ''.'' \<and> c2 = CHR ''/'' then strip_dot_slash s else c1 # c2 # s)"
| "strip_dot_slash s = s"

definition ends_with_slash :: "string \<Rightarrow> bool" where
  "ends_with_slash s = (s \<noteq> [] \<and> last s = CHR ''/'')"

definition str_replace_backslash :: "jv \<Rightarrow> py_error + string" where
  "str_replace_backslash v = (case v of JStr s \<Rightarrow> Inr (replace_backslash s) | _ \<Rightarrow> Inl AttributeError)"

definition expand_cwd :: "string \<Rightarrow> jv \<Rightarrow> py_error + string" where
  "expand_cwd slug cwd =
     and_then (str_replace_backslash (py_or cwd (JStr []))) (\<lambda>s.
       let c = strip_dot_slash s in
       if c = ''backend'' \<or> starts_with c ''backend/'' then Inr (''content/code/'' @ slug @ ''/'' @ c)
       else if c = ''frontend'' \<or> starts_with c ''frontend/'' then Inr (''content/code/'' @ slug @ ''/'' @ c)
       else if \<not> is_safe_relpath (c @ (if \<not> ends_with_slash c then ''/'' else []))
            then Inl ValueError
       else Inr (''content/code/'' @ slug @ ''/'' @ c))"

fun cwd_step :: "string \<Rightarrow> jv \<Rightarrow> py_error + jv" where
  "cwd_step slug (JDict d) =
     (if has_key d ''cwd''
      then and_then (expand_cwd slug (dict_get d ''cwd'')) (\<lambda>c. Inr (JDict (dict_set d ''cwd'' (JStr c))))
      else Inr (JDict d))"
| "cwd_step slug (JStr s) = (if is_substr ''cwd'' s then Inl TypeError else Inr (JStr s))"
| "cwd_step slug (JList xs) = (if JStr ''cwd'' \<in> set xs then Inl TypeError else Inr (JList xs))"
| "cwd_step slug v = Inl TypeError"

definition junit_step :: "string \<Rightarrow> jdict \<Rightarrow> py_error + jdict" where
  "junit_step slug d =
     (if dict_get d ''type'' = JStr ''junit'' \<and> truthy (dict_get d ''junit_xml'')
      then and_then (str_replace_backslash (dict_get d ''junit_xml'')) (\<lambda>j.
             Inr (if \<not> starts_with j ''content/''
                  then dict_set d ''junit_xml'' (JStr (''content/code/'' @ slug @ ''/'' @ j))
                  else d))
      else Inr d)"

definition str_list :: "(jv \<Rightarrow> string) \<Rightarrow> jv \<Rightarrow> py_error + jv" where
  "str_list py_repr v = and_then (py_iter v) (\<lambda>xs. Inr (JList (map (\<lambda>x. JStr (py_str py_repr x)) xs)))"

definition install_step :: "(jv \<Rightarrow> string) \<Rightarrow> jdict \<Rightarrow> py_error + jdict" where
  "install_step py_repr d =
     (if has_key d ''install''
      then (case dict_get d ''install'' of
              JList cmds \<Rightarrow> and_then (map_result (str_list py_repr) cmds)
                               (\<lambda>cs. Inr (dict_set d ''install'' (JList cs)))
            | _ \<Rightarrow> Inr d)
      else Inr d)"

definition cmd_step :: "(jv \<Rightarrow> string) \<Rightarrow> jdict \<Rightarrow> py_error + jdict" where
  "cmd_step py_repr d =
     (if has_key d ''cmd''
      then and_then (str_list py_repr (dict_get d ''cmd'')) (\<lambda>c. Inr (dict_set d ''cmd'' c))
      else Inr d)"

definition test_step :: "(jv \<Rightarrow> string) \<Rightarrow> string \<Rightarrow> jv \<Rightarrow> py_error + jv" where
  "test_step py_repr slug t =
     and_then (cwd_step slug t) (\<lambda>t1.
       case t1 of
         JDict d \<Rightarrow> and_then (junit_step slug d) (\<lambda>d2.
                    and_then (install_step py_repr d2) (\<lambda>d3.
                    and_then (cmd_step py_repr d3) (\<lambda>d4. Inr (JDict d4))))
       | _ \<Rightarrow> Inl AttributeError)"

definition for_each_in :: "jdict \<Rightarrow> string \<Rightarrow> (jv \<Rightarrow> py_error + jv) \<Rightarrow> py_error + jdict" where
  "for_each_in merged key step =
     and_then (py_iter (get_default merged key (JList []))) (\<lambda>items.
     and_then (map_result step items) (\<lambda>items'.
       Inr (case get_default merged key (JList []) of
              JList xs \<Rightarrow> if has_key merged key then dict_set merged key (JList items') else merged
            | _ \<Rightarrow> merged)))"

definition expand_project_paths :: "(jv \<Rightarrow> string) \<Rightarrow> jdict \<Rightarrow> string \<Rightarrow> py_error + jdict" where
  "expand_project_paths py_repr merged slug =
     and_then (for_each_in merged ''services'' (cwd_step slug)) (\<lambda>m1.
       for_each_in m1 ''tests'' (test_step py_repr slug))"


text \<open>
  The vocabulary of the statements: \<open>norm_cwd\<close> is a cwd after the two normalisation
  steps, \<open>rooted\<close> says that it is \<open>backend\<close> or \<open>frontend\<close> or lies below one of them,
  \<open>declares_cwd merged key\<close> that some entry of the list under \<open>key\<close> is a dict with a
  \<open>cwd\<close> key.
\<close>

definition norm_cwd :: "string \<Rightarrow> string" where
  "norm_cwd s = strip_dot_slash (replace_backslash s)"

definition rooted :: "string \<Rightarrow> bool" where
  "rooted c = (c = ''backend'' \<or> starts_with c ''backend/'' \<or>
               c = ''frontend'' \<or> starts_with c ''frontend/'')"

fun item_has_cwd :: "jv \<Rightarrow> bool" where
  "item_has_cwd (JDict d) = has_key d ''cwd''"
| "item_has_cwd v = False"

definition declares_cwd :: "jdict \<Rightarrow> string \<Rightarrow> bool" where
  "declares_cwd merged key =
     (case get_default merged key (JList []) of
        JList items \<Rightarrow> list_ex item_has_cwd items
      | _ \<Rightarrow> False)"


section \<open>Process orchestrator\<close>

text \<open>
  The orchestrator starts processes, polls URLs and runs commands. What the outside
  world answers is a parameter of the model, the record \<open>world\<close>: each field is the
  answer to one kind of call, indexed by the position of the service or test in the plan
  and by the number of the try, so that no two calls share an answer. What the
  orchestrator does to the outside world is recorded as a trace of events, in order. A
  started process is identified by the position of its service in the plan.

  \<^item> \<open>Spawn i\<close>: \<open>subprocess.Popen\<close> returned a process for service \<open>i\<close>;
  \<^item> \<open>HttpGet i k\<close>: the \<open>k\<close>-th \<open>urlopen\<close> of the healthcheck of service \<open>i\<close>;
  \<^item> \<open>Terminate i\<close>, \<open>Kill i\<close>: \<open>p.terminate()\<close>, \<open>p.kill()\<close> on the process of service \<open>i\<close>;
  \<^item> \<open>Install i j\<close>: install command \<open>j\<close> of test \<open>i\<close> was run to completion;
  \<^item> \<open>Attempt i k\<close>: the \<open>k\<close>-th attempt at the command of test \<open>i\<close>.

  Writing log files and printing to stderr are left out.
\<close>

datatype event =
    Spawn nat
  | HttpGet nat nat
  | Terminate nat
  | Kill nat
  | Install nat nat
  | Attempt nat nat

text \<open>
  One \<open>urlopen\<close> with the read of its body: a body, a \<open>URLError\<close> or \<open>HTTPError\<close> (the two
  that \<open>wait_http\<close> catches), or any other exception (which it does not catch).
\<close>

datatype probe_result = Body string | URLError | ProbeRaises

text \<open>
  What a finished command left: for a test attempt this is \<open>(stdout, stderr, rc)\<close> after
  the \<open>try\<close> block, so a timeout is \<open>rc = 124\<close>, a missing executable \<open>rc = 127\<close> and any
  other exception \<open>rc = 1\<close>.
\<close>

record proc_result =
  pr_rc :: int
  pr_stdout :: string
  pr_stderr :: string

text \<open>
  \<open>spawn_ok i\<close>: \<open>Popen\<close> for service \<open>i\<close> returns (it raises otherwise);
  \<open>probe i k\<close> and \<open>probe_ms i k\<close>: the \<open>k\<close>-th probe of service \<open>i\<close> and the milliseconds it
  took; \<open>still_running n i\<close>: \<open>p.poll() is None\<close> for process \<open>i\<close> when \<open>n\<close> events have
  happened; \<open>install_run i j\<close>: install command \<open>j\<close> of test \<open>i\<close> (\<open>None\<close> when
  \<open>subprocess.run\<close> raises); \<open>attempt_run i k\<close>: attempt \<open>k\<close> of test \<open>i\<close>;
  \<open>junit_report i k\<close>: what \<open>parse_junit\<close> makes of the report file after that attempt,
  \<open>playwright_report\<close>: what \<open>parse_playwright\<close> makes of a standard output (\<open>Inr\<close> the
  summary, \<open>Inl\<close> the message of the exception); \<open>measured i\<close>: what
  \<open>round(time.time() - t0, 2)\<close> reads for service \<open>i\<close>, in hundredths of a second.
\<close>

record world =
  spawn_ok :: "nat \<Rightarrow> bool"
  probe :: "nat \<Rightarrow> nat \<Rightarrow> probe_result"
  probe_ms :: "nat \<Rightarrow> nat \<Rightarrow> nat"
  still_running :: "nat \<Rightarrow> nat \<Rightarrow> bool"
  install_run :: "nat \<Rightarrow> nat \<Rightarrow> proc_result option"
  attempt_run :: "nat \<Rightarrow> nat \<Rightarrow> proc_result"
  junit_report :: "nat \<Rightarrow> nat \<Rightarrow> string + jv"
  playwright_report :: "string \<Rightarrow> string + jv"
  measured :: "nat \<Rightarrow> int"

text \<open>
  The fields of a service and of a test that the orchestrator reads, with the defaults of
  its \<open>get\<close> calls applied: \<open>hc_timeout\<close> is \<open>int(hc.get("timeout_sec", 20))\<close>, \<open>t_retries\<close>
  is \<open>int(tcfg.get("retries", 0) or 0)\<close>, \<open>t_type\<close> is
  \<open>(tcfg.get("type") or "raw").lower()\<close>. The command fields stay raw values, since
  \<open>to_cmd_list\<close> checks them.
\<close>

record service =
  svc_name :: string
  svc_start :: jv
  hc_url :: "string option"
  hc_expect :: "string option"
  hc_timeout :: int

record test =
  t_name :: string
  t_type :: string
  t_cmd :: jv
  t_install :: "jv list"
  t_timeout :: int
  t_retries :: int
  t_junit_xml :: "string option"

record config =
  cfg_services :: "service list"
  cfg_tests :: "test list"

text \<open>
  \<^verbatim>\<open>
  def to_cmd_list(x):
      if not isinstance(x, list) or not all(isinstance(i, str) for i in x):
          raise ValueError("Command must be a list[str].")
      return x

  def tail(s: str, n: int = 1200) -> str:
      return s[-n:] if len(s) > n else s
  \<close>
\<close>

fun strs_of :: "jv list \<Rightarrow> string list option" where
  "strs_of [] = Some []"
| "strs_of (JStr s # xs) = (case strs_of xs of Some ss \<Rightarrow> Some (s # ss) | None \<Rightarrow> None)"
| "strs_of (x # xs) = None"

fun to_cmd_list :: "jv \<Rightarrow> py_error + string list" where
  "to_cmd_list (JList xs) = (case strs_of xs of Some ss \<Rightarrow> Inr ss | None \<Rightarrow> Inl ValueError)"
| "to_cmd_list x = Inl ValueError"

definition tail :: "string \<Rightarrow> nat \<Rightarrow> string" where
  "tail s n = (if length s > n then drop (length s - n) s else s)"

text \<open>
  \<^verbatim>\<open>
  def wait_http(url, expect, timeout_sec, log_file, human):
      start = time.time()
      tries = 0
      while time.time() - start < timeout_sec:
          tries += 1
          try:
              with urllib.request.urlopen(url, timeout=3) as r:
                  body = r.read().decode("utf-8", errors="ignore")
                  if (expect is None) or (expect in body):
                      write_text(log_file, f"[healthcheck] OK after {tries} tries\n")
                      return True
          except (urllib.error.URLError, urllib.error.HTTPError) as e:
              write_text(log_file, f"[healthcheck] try#{tries} -> {e}\n")
          time.sleep(0.4)
      ...
      return False
  \<close>
  The time since \<open>start\<close> is \<open>elapsed_ms\<close>, in milliseconds: it is \<open>0\<close> at the first test
  of the loop condition, and one round of the loop adds the time of the probe and the
  400 ms of the sleep. The clock is taken not to run backwards.
\<close>

function wait_http :: "world \<Rightarrow> nat \<Rightarrow> string option \<Rightarrow> int \<Rightarrow> nat \<Rightarrow> nat \<Rightarrow> event list
    \<Rightarrow> (py_error + bool) \<times> event list" where
  "wait_http w i expect timeout_sec elapsed_ms tries tr =
     (if int elapsed_ms < timeout_sec * 1000
      then (case probe w i (Suc tries) of
              Body body \<Rightarrow>
                if (case expect of None \<Rightarrow> True | Some e \<Rightarrow> is_substr e body)
                then (Inr True, tr @ [HttpGet i (Suc tries)])
                else wait_http w i expect timeout_sec
                       (elapsed_ms + probe_ms w i (Suc tries) + 400) (Suc tries)
                       (tr @ [HttpGet i (Suc tries)])
            | URLError \<Rightarrow>
                wait_http w i expect timeout_sec
                  (elapsed_ms + probe_ms w i (Suc tries) + 400) (Suc tries)
                  (tr @ [HttpGet i (Suc tries)])
            | ProbeRaises \<Rightarrow> (Inl OtherException, tr @ [HttpGet i (Suc tries)]))
      else (Inr False, tr))"
  by pat_completeness auto

termination
  by (relation "measure (\<lambda>(w, i, expect, timeout_sec, elapsed_ms, tries, tr).
        nat (timeout_sec * 1000 - int elapsed_ms))") auto

text \<open>
  \<^verbatim>\<open>
  def stop_services(procs):
      for name, p in reversed(procs):
          try: p.terminate()
          except Exception: pass
      time.sleep(0.7)
      for name, p in reversed(procs):
          if p.poll() is None:
              try: p.kill()
              except Exception: pass
  \<close>
\<close>

definition stop_services :: "world \<Rightarrow> nat list \<Rightarrow> event list \<Rightarrow> event list" where
  "stop_services w procs tr =
     tr @ map Terminate (rev procs)
        @ map Kill (filter (still_running w (length tr)) (rev procs))"

text \<open>
  \<^verbatim>\<open>
  def start_services(cfg, artifacts_dir, base_env, human, max_wait_override):
      services_cfg = cfg.get("services", [])
      procs = []
      svc_meta = []
      for svc in services_cfg:
          name = svc.get("name")
          cmd = to_cmd_list(svc.get("start", []))
          hc = svc.get("healthcheck", {}) or {}
          url = hc.get("url")
          expect = hc.get("expect")
          timeout_sec = int(hc.get("timeout_sec", 20))
          if max_wait_override and max_wait_override > 0:
              timeout_sec = max(timeout_sec, max_wait_override)
          ...
          proc = subprocess.Popen(cmd, ...)
          procs.append((name, proc))
          ...
          healthy = False
          if url:
              healthy = wait_http(url, expect, timeout_sec, log_path, human)
          else:
              time.sleep(1.0)
              healthy = True
          svc_meta.append({"name": name, "healthy": bool(healthy), "duration_sec": ...})
          if not healthy:
              stop_services(procs)
              return svc_meta, procs, False
      return svc_meta, procs, True
  \<close>
  \<open>url_declared\<close> is \<open>if url\<close>, \<open>effective_timeout\<close> the timeout after the override,
  \<open>health_of\<close> the \<open>if url: ... else: ...\<close> block, \<open>start_loop\<close> the loop with the index
  of the service, \<open>procs\<close> and \<open>svc_meta\<close> as they stand. An entry of \<open>svc_meta\<close> is the
  record \<open>svc_entry\<close>, with \<open>duration_sec\<close> in hundredths of a second. An exception
  leaves the function with the trace so far: the list \<open>procs\<close> is lost with the frame.
\<close>

record svc_entry =
  se_name :: string
  se_healthy :: bool
  se_duration :: int

definition url_declared :: "service \<Rightarrow> bool" where
  "url_declared svc = (case hc_url svc of None \<Rightarrow> False | Some u \<Rightarrow> u \<noteq> [])"

definition effective_timeout :: "int \<Rightarrow> service \<Rightarrow> int" where
  "effective_timeout max_wait_override svc =
     (if max_wait_override \<noteq> 0 \<and> max_wait_override > 0
      then max (hc_timeout svc) max_wait_override else hc_timeout svc)"

definition health_of :: "world \<Rightarrow> int \<Rightarrow> service \<Rightarrow> nat \<Rightarrow> event list \<Rightarrow> (py_error + bool) \<times> event list" where
  "health_of w mw svc i tr =
     (if url_declared svc
      then wait_http w i (hc_expect svc) (effective_timeout mw svc) 0 0 tr
      else (Inr True, tr))"

fun start_loop :: "world \<Rightarrow> int \<Rightarrow> service list \<Rightarrow> nat \<Rightarrow> nat list \<Rightarrow> svc_entry list
    \<Rightarrow> event list \<Rightarrow> (py_error + (svc_entry list \<times> nat list \<times> bool)) \<times> event list" where
  "start_loop w mw [] i procs svc_meta tr = (Inr (svc_meta, procs, True), tr)"
| "start_loop w mw (svc # rest) i procs svc_meta tr =
     (case to_cmd_list (svc_start svc) of
        Inl e \<Rightarrow> (Inl e, tr)
      | Inr cmd \<Rightarrow>
          if \<not> spawn_ok w i then (Inl OSError, tr)
          else (case health_of w mw svc i (tr @ [Spawn i]) of
                  (Inl e, tr2) \<Rightarrow> (Inl e, tr2)
                | (Inr healthy, tr2) \<Rightarrow>
                    if \<not> healthy
                    then (Inr (svc_meta @ [\<lparr>se_name = svc_name svc, se_healthy = healthy,
                                            se_duration = measured w i\<rparr>],
                               procs @ [i], False),
                          stop_services w (procs @ [i]) tr2)
                    else start_loop w mw rest (Suc i) (procs @ [i])
                           (svc_meta @ [\<lparr>se_name = svc_name svc, se_healthy = healthy,
                                         se_duration = measured w i\<rparr>]) tr2))"

definition start_services :: "world \<Rightarrow> config \<Rightarrow> int
    \<Rightarrow> (py_error + (svc_entry list \<times> nat list \<times> bool)) \<times> event list" where
  "start_services w cfg mw = start_loop w mw (cfg_services cfg) 0 [] [] []"

text \<open>
  \<^verbatim>\<open>
  def run_one_test(tcfg, artifacts_dir, base_env, human):
      name = tcfg.get("name")
      ttype = (tcfg.get("type") or "raw").lower()
      cmd = to_cmd_list(tcfg.get("cmd", []))
      install = tcfg.get("install", [])
      retries = int(tcfg.get("retries", 0) or 0)
      if install:
          for icmd in install:
              icmd = to_cmd_list(icmd)
              pr = subprocess.run(icmd, ...)
              if pr.returncode != 0:
                  return {"name": name, "type": ttype, "returncode": pr.returncode,
                          "error": "install-failed", "summary": {"install_cmd": icmd}}
      attempt = 0
      while True:
          attempt += 1
          try: ... rc = proc.returncode (124 on timeout)
          except FileNotFoundError as e: stdout, stderr, rc = "", str(e), 127
          except Exception as e: stdout, stderr, rc = "", str(e), 1
          if ttype == "junit":
              junit_xml = tcfg.get("junit_xml")
              if junit_xml: result = parse_junit(Path(junit_xml), rc)
              else: result = parse_raw(stdout, stderr, rc)
          elif ttype == "playwright": result = parse_playwright(stdout, rc)
          else: result = parse_raw(stdout, stderr, rc)
          result["name"] = name
          result.setdefault("summary", {})
          if rc == 0: return result
          if attempt > retries: return result
          time.sleep(0.6)
  \<close>
  A result is the dict the code builds. \<open>parse_adapter\<close> is the common shape of
  \<open>parse_junit\<close> and \<open>parse_playwright\<close>: the summary, or the \<open>parse-error\<close> entry when the
  adapter's \<open>try\<close> block raised. \<open>result_of\<close> is the part of the loop body that builds
  \<open>result\<close> from \<open>stdout\<close>, \<open>stderr\<close> and \<open>rc\<close> of the attempt just made, from what
  \<open>parse_junit\<close> finds in the report file at that moment and from \<open>parse_playwright\<close>;
  \<open>attempt_result\<close> is the result of attempt \<open>k\<close> in the world \<open>w\<close>,
  \<open>attempt_loop\<close> the \<open>while True\<close> loop with \<open>attempt\<close> as it stands, \<open>run_installs\<close> the
  install loop: \<open>Inr None\<close> when every install command returned zero, \<open>Inr (Some r)\<close> with
  the \<open>install-failed\<close> result otherwise.
\<close>

definition parse_raw :: "string \<Rightarrow> string \<Rightarrow> int \<Rightarrow> jdict" where
  "parse_raw out err rc =
     [(''type'', JStr ''raw''), (''returncode'', JInt rc),
      (''summary'', JDict [(''stdout_tail'', JStr (tail out 800)),
                           (''stderr_tail'', JStr (tail err 800))])]"

definition parse_adapter :: "string \<Rightarrow> (string + jv) \<Rightarrow> int \<Rightarrow> jdict" where
  "parse_adapter kind rep rc =
     (case rep of
        Inr summary \<Rightarrow> [(''type'', JStr kind), (''returncode'', JInt rc), (''summary'', summary)]
      | Inl msg \<Rightarrow> [(''type'', JStr kind), (''returncode'', JInt rc),
                   (''error'', JStr (''parse-error: '' @ msg))])"

definition result_of :: "test \<Rightarrow> proc_result \<Rightarrow> (string + jv) \<Rightarrow> (string \<Rightarrow> string + jv) \<Rightarrow> jdict" where
  "result_of t pr junit playwright =
     (let result =
            (if t_type t = ''junit''
             then (case t_junit_xml t of
                     Some p \<Rightarrow> if p \<noteq> [] then parse_adapter ''junit'' junit (pr_rc pr)
                               else parse_raw (pr_stdout pr) (pr_stderr pr) (pr_rc pr)
                   | None \<Rightarrow> parse_raw (pr_stdout pr) (pr_stderr pr) (pr_rc pr))
             else if t_type t = ''playwright''
             then parse_adapter ''playwright'' (playwright (pr_stdout pr)) (pr_rc pr)
             else parse_raw (pr_stdout pr) (pr_stderr pr) (pr_rc pr))
      in setdefault (dict_set result ''name'' (JStr (t_name t))) ''summary'' (JDict []))"

definition attempt_result :: "world \<Rightarrow> nat \<Rightarrow> test \<Rightarrow> nat \<Rightarrow> jdict" where
  "attempt_result w i t attempt =
     result_of t (attempt_run w i attempt) (junit_report w i attempt) (playwright_report w)"

function attempt_loop :: "world \<Rightarrow> nat \<Rightarrow> test \<Rightarrow> nat \<Rightarrow> event list \<Rightarrow> jdict \<times> event list" where
  "attempt_loop w i t attempt tr =
     (if pr_rc (attempt_run w i (Suc attempt)) = 0
      then (attempt_result w i t (Suc attempt), tr @ [Attempt i (Suc attempt)])
      else if int (Suc attempt) > t_retries t
      then (attempt_result w i t (Suc attempt), tr @ [Attempt i (Suc attempt)])
      else attempt_loop w i t (Suc attempt) (tr @ [Attempt i (Suc attempt)]))"
  by pat_completeness auto

termination
  by (relation "measure (\<lambda>(w, i, t, attempt, tr). nat (t_retries t - int attempt))") auto

fun run_installs :: "world \<Rightarrow> nat \<Rightarrow> test \<Rightarrow> jv list \<Rightarrow> nat \<Rightarrow> event list
    \<Rightarrow> (py_error + jdict option) \<times> event list" where
  "run_installs w i t [] j tr = (Inr None, tr)"
| "run_installs w i t (icmd # rest) j tr =
     (case to_cmd_list icmd of
        Inl e \<Rightarrow> (Inl e, tr)
      | Inr c \<Rightarrow>
          (case install_run w i j of
             None \<Rightarrow> (Inl OSError, tr)
           | Some pr \<Rightarrow>
               if pr_rc pr \<noteq> 0
               then (Inr (Some [(''name'', JStr (t_name t)), (''type'', JStr (t_type t)),
                                (''returncode'', JInt (pr_rc pr)),
                                (''error'', JStr ''install-failed''),
                                (''summary'', JDict [(''install_cmd'', icmd)])]),
                     tr @ [Install i j])
               else run_installs w i t rest (Suc j) (tr @ [Install i j])))"

definition run_one_test :: "world \<Rightarrow> nat \<Rightarrow> test \<Rightarrow> event list \<Rightarrow> (py_error + jdict) \<times> event list" where
  "run_one_test w i t tr =
     (case to_cmd_list (t_cmd t) of
        Inl e \<Rightarrow> (Inl e, tr)
      | Inr cmd \<Rightarrow>
          (case run_installs w i t (t_install t) 0 tr of
             (Inl e, tr1) \<Rightarrow> (Inl e, tr1)
           | (Inr (Some failed), tr1) \<Rightarrow> (Inr failed, tr1)
           | (Inr None, tr1) \<Rightarrow>
               (case attempt_loop w i t 0 tr1 of (result, tr2) \<Rightarrow> (Inr result, tr2))))"

text \<open>
  \<^verbatim>\<open>
  def main():
      ...
      services_meta, procs, ok_services = start_services(
          cfg, artifacts_dir, base_env, args.human, args.max_service_wait)
      results = []
      overall_passed = False
      try:
          if ok_services:
              tests_cfg = cfg.get("tests", []) or []
              all_ok = True
              for tcfg in tests_cfg:
                  res = run_one_test(tcfg, artifacts_dir, base_env, args.human)
                  results.append(res)
                  if res.get("returncode", 1) != 0:
                      all_ok = False
              overall_passed = all_ok
          else:
              overall_passed = False
      finally:
          stop_services(procs)
      report = {..., "overall_passed": bool(overall_passed),
                "services": services_meta, "results": results}
      ...
      sys.exit(0 if overall_passed else 1)
  \<close>
  \<open>run_tests\<close> is the loop over the tests with the index of the test, \<open>results\<close> and
  \<open>all_ok\<close> as they stand. A run either ends in \<open>sys.exit\<close> with its report, or an
  exception leaves \<open>main\<close> and Python exits with status 1 and no report. The call of
  \<open>start_services\<close> stands before the \<open>try\<close>, so an exception it raises does not pass
  through the \<open>finally\<close> clause.
\<close>

fun run_tests :: "world \<Rightarrow> test list \<Rightarrow> nat \<Rightarrow> jdict list \<Rightarrow> bool \<Rightarrow> event list
    \<Rightarrow> (py_error + (jdict list \<times> bool)) \<times> event list" where
  "run_tests w [] i results all_ok tr = (Inr (results, all_ok), tr)"
| "run_tests w (t # rest) i results all_ok tr =
     (case run_one_test w i t tr of
        (Inl e, tr1) \<Rightarrow> (Inl e, tr1)
      | (Inr res, tr1) \<Rightarrow>
          run_tests w rest (Suc i) (results @ [res])
            (if get_default res ''returncode'' (JInt 1) \<noteq> JInt 0 then False else all_ok) tr1)"

record report =
  overall_passed :: bool
  rep_services :: "svc_entry list"
  rep_results :: "jdict list"

datatype outcome = Crashed py_error | Exited int report

fun exit_code :: "outcome \<Rightarrow> int" where
  "exit_code (Crashed e) = 1"
| "exit_code (Exited c r) = c"

definition main :: "world \<Rightarrow> config \<Rightarrow> int \<Rightarrow> outcome \<times> event list" where
  "main w cfg max_service_wait =
     (case start_services w cfg max_service_wait of
        (Inl e, tr) \<Rightarrow> (Crashed e, tr)
      | (Inr (services_meta, procs, ok_services), tr) \<Rightarrow>
          if ok_services
          then (case run_tests w (cfg_tests cfg) 0 [] True tr of
                  (Inl e, tr1) \<Rightarrow> (Crashed e, stop_services w procs tr1)
                | (Inr (res, all_ok), tr1) \<Rightarrow>
                    (Exited (if all_ok then 0 else 1)
                       \<lparr>overall_passed = all_ok, rep_services = services_meta, rep_results = res\<rparr>,
                     stop_services w procs tr1))
          else (Exited 1 \<lparr>overall_passed = False, rep_services = services_meta, rep_results = []\<rparr>,
                stop_services w procs tr))"

text \<open>Kinds of events, for the statements about traces.\<close>

fun is_spawn :: "event \<Rightarrow> bool" where
  "is_spawn (Spawn i) = True"
| "is_spawn e = False"

fun is_http :: "event \<Rightarrow> bool" where
  "is_http (HttpGet i k) = True"
| "is_http e = False"

fun is_test_event :: "nat \<Rightarrow> event \<Rightarrow> bool" where
  "is_test_event i (Install i' j) = (i' = i)"
| "is_test_event i (Attempt i' k) = (i' = i)"
| "is_test_event i e = False"

fun is_stop_event :: "event \<Rightarrow> bool" where
  "is_stop_event (Terminate i) = True"
| "is_stop_event (Kill i) = True"
| "is_stop_event e = False"

text \<open>
  Two worlds and a few plans, for concrete runs. In \<open>healthy_world\<close> every probe answers
  \<open>pong\<close> and every command returns zero. In \<open>failing_world\<close> only service 0 answers, each
  probe takes nine seconds, and attempt \<open>k\<close> of a test returns \<open>k\<close> and prints its own
  text.
\<close>

definition healthy_world :: world where
  "healthy_world =
     \<lparr>spawn_ok = (\<lambda>i. True),
      probe = (\<lambda>i k. Body ''pong''),
      probe_ms = (\<lambda>i k. 10),
      still_running = (\<lambda>n p. False),
      install_run = (\<lambda>i j. Some \<lparr>pr_rc = 0, pr_stdout = [], pr_stderr = []\<rparr>),
      attempt_run = (\<lambda>i k. \<lparr>pr_rc = 0, pr_stdout = ''ok'', pr_stderr = []\<rparr>),
      junit_report = (\<lambda>i k. Inl ''no report''),
      playwright_report = (\<lambda>s. Inl ''no json''),
      measured = (\<lambda>i. 101)\<rparr>"

definition failing_world :: world where
  "failing_world =
     \<lparr>spawn_ok = (\<lambda>i. True),
      probe = (\<lambda>i k. if i = 0 then Body ''pong'' else URLError),
      probe_ms = (\<lambda>i k. 9000),
      still_running = (\<lambda>n p. p = 0),
      install_run = (\<lambda>i j. Some \<lparr>pr_rc = 0, pr_stdout = [], pr_stderr = []\<rparr>),
      attempt_run = (\<lambda>i k. \<lparr>pr_rc = int k,
                            pr_stdout = (if k = 3 then ''third run'' else ''earlier run''),
                            pr_stderr = (if k = 3 then ''third error'' else ''earlier error'')\<rparr>),
      junit_report = (\<lambda>i k. Inl ''no report''),
      playwright_report = (\<lambda>s. Inl ''no json''),
      measured = (\<lambda>i. if i = 0 then 900 else 2820)\<rparr>"

definition backend_service :: service where
  "backend_service =
     \<lparr>svc_name = ''backend'', svc_start = JList [JStr ''flask'', JStr ''run''],
      hc_url = Some ''http://localhost:5000/api/ping'', hc_expect = Some ''pong'',
      hc_timeout = 20\<rparr>"

definition frontend_service :: service where
  "frontend_service =
     \<lparr>svc_name = ''frontend'', svc_start = JList [JStr ''npm'', JStr ''start''],
      hc_url = Some ''http://localhost:5173/'', hc_expect = None, hc_timeout = 20\<rparr>"

definition flaky_test :: test where
  "flaky_test =
     \<lparr>t_name = ''api'', t_type = ''raw'', t_cmd = JList [JStr ''pytest''],
      t_install = [JList [JStr ''pip'', JStr ''install'', JStr ''pytest'']],
      t_timeout = 0, t_retries = 2, t_junit_xml = None\<rparr>"

definition demo_config :: config where
  "demo_config = \<lparr>cfg_services = [backend_service, frontend_service], cfg_tests = [flaky_test]\<rparr>"


text \<open>
  The healthcheck as the probes decide it, for the statements. \<open>elapsed_after w i n\<close> is
  the time on the loop's clock when \<open>n\<close> probes of service \<open>i\<close> have been made, in
  milliseconds; \<open>in_time w i t n\<close> says that this is before the deadline of \<open>t\<close> seconds,
  so that probe \<open>n + 1\<close> is made. Probe \<open>n\<close> \<open>answers\<close> when it returns a body that
  holds the expected text (any body when none is expected), and \<open>rejects\<close> when it
  returns another body or fails with a \<open>URLError\<close>. \<open>timeout_in_force\<close> is the declared
  timeout, raised to \<open>--max-service-wait\<close> when that is positive and larger. A service
  \<open>fails_healthcheck\<close> when it declares a URL and every probe made in time rejects; it
  \<open>passes_healthcheck\<close> when it declares no URL, or some probe made in time answers
  after rejecting ones only. \<open>startable\<close>: the start command is a list of strings and
  \<open>Popen\<close> returns. \<open>recorded\<close> is the health entry that the statements expect for a
  service. \<open>no_wait\<close>: a healthcheck URL is declared, the declared timeout is not
  positive and neither is \<open>--max-service-wait\<close>.
\<close>

fun elapsed_after :: "world \<Rightarrow> nat \<Rightarrow> nat \<Rightarrow> nat" where
  "elapsed_after w i 0 = 0"
| "elapsed_after w i (Suc n) = elapsed_after w i n + probe_ms w i (Suc n) + 400"

definition in_time :: "world \<Rightarrow> nat \<Rightarrow> int \<Rightarrow> nat \<Rightarrow> bool" where
  "in_time w i timeout_sec n = (int (elapsed_after w i n) < timeout_sec * 1000)"

definition answers :: "world \<Rightarrow> nat \<Rightarrow> string option \<Rightarrow> nat \<Rightarrow> bool" where
  "answers w i expect n =
     (case probe w i n of
        Body body \<Rightarrow> (case expect of None \<Rightarrow> True | Some e \<Rightarrow> is_substr e body)
      | URLError \<Rightarrow> False
      | ProbeRaises \<Rightarrow> False)"

definition rejects :: "world \<Rightarrow> nat \<Rightarrow> string option \<Rightarrow> nat \<Rightarrow> bool" where
  "rejects w i expect n =
     (case probe w i n of
        Body body \<Rightarrow> (case expect of None \<Rightarrow> False | Some e \<Rightarrow> \<not> is_substr e body)
      | URLError \<Rightarrow> True
      | ProbeRaises \<Rightarrow> False)"

definition timeout_in_force :: "int \<Rightarrow> service \<Rightarrow> int" where
  "timeout_in_force mw svc = (if 0 < mw then max (hc_timeout svc) mw else hc_timeout svc)"

definition fails_healthcheck :: "world \<Rightarrow> int \<Rightarrow> service \<Rightarrow> nat \<Rightarrow> bool" where
  "fails_healthcheck w mw svc i =
     (url_declared svc \<and>
      (\<forall>n. in_time w i (timeout_in_force mw svc) n \<longrightarrow> rejects w i (hc_expect svc) (Suc n)))"

definition passes_healthcheck :: "world \<Rightarrow> int \<Rightarrow> service \<Rightarrow> nat \<Rightarrow> bool" where
  "passes_healthcheck w mw svc i =
     (\<not> url_declared svc \<or>
      (\<exists>n. in_time w i (timeout_in_force mw svc) n \<and> answers w i (hc_expect svc) (Suc n) \<and>
           (\<forall>m<n. rejects w i (hc_expect svc) (Suc m))))"

definition startable :: "world \<Rightarrow> service \<Rightarrow> nat \<Rightarrow> bool" where
  "startable w svc i =
     (case to_cmd_list (svc_start svc) of Inr cmd \<Rightarrow> spawn_ok w i | Inl e \<Rightarrow> False)"

definition recorded :: "world \<Rightarrow> int \<Rightarrow> service \<Rightarrow> nat \<Rightarrow> svc_entry" where
  "recorded w mw svc i =
     \<lparr>se_name = svc_name svc, se_healthy = passes_healthcheck w mw svc i,
      se_duration = measured w i\<rparr>"

definition no_wait :: "int \<Rightarrow> service \<Rightarrow> bool" where
  "no_wait mw svc = (url_declared svc \<and> hc_timeout svc \<le> 0 \<and> mw \<le> 0)"

definition zero_timeout_config :: config where
  "zero_timeout_config =
     \<lparr>cfg_services = [backend_service\<lparr>hc_timeout := 0\<rparr>], cfg_tests = [flaky_test]\<rparr>"

definition broken_second_config :: config where
  "broken_second_config =
     \<lparr>cfg_services = [backend_service, frontend_service\<lparr>svc_start := JStr ''npm start''\<rparr>],
      cfg_tests = [flaky_test]\<rparr>"

definition second_spawn_fails_world :: world where
  "second_spawn_fails_world = healthy_world\<lparr>spawn_ok := (\<lambda>i. i = 0)\<rparr>"

section \<open>Properties of dicts\<close>

lemma has_key_iff: "has_key d k \<longleftrightarrow> k \<in> fst ` set d"
  by (induction d) auto

lemma dict_get_set: "dict_get (dict_set d k v) k' = (if k' = k then v else dict_get d k')"
  by (induction d) auto

lemma has_key_set: "has_key (dict_set d k v) k' = (k' = k \<or> has_key d k')"
  by (induction d) (auto split: if_splits)

lemma dict_set_same: "has_key d k \<Longrightarrow> dict_get d k = v \<Longrightarrow> dict_set d k v = d"
  by (induction d) auto

lemma dict_get_distinct: "distinct (map fst d) \<Longrightarrow> (k, v) \<in> set d \<Longrightarrow> dict_get d k = v"
  by (induction d) (auto simp: rev_image_eqI)

section \<open>Properties of deep_merge\<close>

lemma merge_items_get:
  "distinct (map fst b) \<Longrightarrow>
   dict_get (merge_items out b) k =
     (if has_key b k then deep_merge (dict_get out k) (dict_get b k) else dict_get out k)"
proof (induction b arbitrary: out)
  case Nil
  then show ?case by simp
next
  case (Cons kv b)
  obtain k' v' where kv: "kv = (k', v')" by (cases kv)
  from Cons.prems kv have d: "distinct (map fst b)" and nk: "\<not> has_key b k'"
    by (auto simp: has_key_iff)
  show ?case
    using Cons.IH [OF d, of "dict_set out k' (deep_merge (dict_get out k') v')"] nk
    by (auto simp: kv dict_get_set)
qed

lemma merge_items_has_key:
  "has_key (merge_items out b) k = (has_key out k \<or> has_key b k)"
  by (induction b arbitrary: out) (auto simp: has_key_set)

lemma merge_items_fix:
  "(\<And>k v. (k, v) \<in> set b \<Longrightarrow> has_key out k \<and> dict_get out k = v \<and> deep_merge v v = v)
   \<Longrightarrow> merge_items out b = out"
proof (induction b arbitrary: out)
  case Nil
  then show ?case by simp
next
  case (Cons kv b)
  obtain k v where kv: "kv = (k, v)" by (cases kv)
  have h: "has_key out k \<and> dict_get out k = v \<and> deep_merge v v = v"
    using Cons.prems [of k v] by (simp add: kv)
  then have same: "dict_set out k (deep_merge (dict_get out k) v) = out"
    by (simp add: dict_set_same)
  have "merge_items out b = out"
  proof (rule Cons.IH)
    fix k2 v2 assume "(k2, v2) \<in> set b"
    then show "has_key out k2 \<and> dict_get out k2 = v2 \<and> deep_merge v2 v2 = v2"
      using Cons.prems [of k2 v2] by simp
  qed
  then show ?case by (simp add: kv same)
qed

lemma deep_merge_idem: "wf_jv a \<Longrightarrow> deep_merge a a = a"
proof (induction a)
  case (JDict d)
  have "merge_items d d = d"
  proof (rule merge_items_fix)
    fix k v assume kv: "(k, v) \<in> set d"
    from JDict.prems have dist: "distinct (map fst d)" and wfv: "wf_jv v"
      using kv by (auto simp: list_all_iff)
    have "deep_merge v v = v"
      using JDict.IH [of "(k, v)" v] kv wfv by simp
    moreover have "has_key d k" using kv by (force simp: has_key_iff)
    moreover have "dict_get d k = v" using dist kv by (rule dict_get_distinct)
    ultimately show "has_key d k \<and> dict_get d k = v \<and> deep_merge v v = v" by simp
  qed
  then show ?case by simp
qed simp_all

lemma deep_merge_non_dict: "\<not> (is_dict a \<and> is_dict b) \<Longrightarrow> deep_merge a b = b"
  by (cases a; cases b) simp_all

text \<open>
  Claim C7. When both arguments are dicts, \<open>deep_merge a b\<close> is a dict whose keys are
  those of \<open>a\<close> and of \<open>b\<close>; a key present in both is mapped to the \<open>deep_merge\<close> of its two
  values, a key of \<open>b\<close> alone to \<open>b\<close>'s value and a key of \<open>a\<close> alone to \<open>a\<close>'s value. In
  every other case (a list, a scalar, \<open>None\<close> on either side) the result is \<open>b\<close> as it
  is: nothing is concatenated. And \<open>deep_merge a a = a\<close>.
\<close>

theorem deep_merge_spec:
  assumes "wf_jv a" and "wf_jv b"
  shows "(\<forall>da db. a = JDict da \<and> b = JDict db \<longrightarrow>
            (\<exists>dout. deep_merge a b = JDict dout \<and>
               (\<forall>k. has_key dout k = (has_key da k \<or> has_key db k) \<and>
                    (has_key da k \<and> has_key db k \<longrightarrow>
                       dict_get dout k = deep_merge (dict_get da k) (dict_get db k)) \<and>
                    (\<not> has_key da k \<and> has_key db k \<longrightarrow> dict_get dout k = dict_get db k) \<and>
                    (has_key da k \<and> \<not> has_key db k \<longrightarrow> dict_get dout k = dict_get da k))))
       \<and> (\<not> (is_dict a \<and> is_dict b) \<longrightarrow> deep_merge a b = b)
       \<and> deep_merge a a = a"
proof (intro conjI allI impI)
  fix da db
  assume ab: "a = JDict da \<and> b = JDict db"
  with assms(2) have dist: "distinct (map fst db)" by simp
  have absent: "\<And>k. \<not> has_key da k \<Longrightarrow> dict_get da k = JNull"
  proof -
    fix k show "\<not> has_key da k \<Longrightarrow> dict_get da k = JNull"
      by (induction da) auto
  qed
  show "\<exists>dout. deep_merge a b = JDict dout \<and>
          (\<forall>k. has_key dout k = (has_key da k \<or> has_key db k) \<and>
               (has_key da k \<and> has_key db k \<longrightarrow>
                  dict_get dout k = deep_merge (dict_get da k) (dict_get db k)) \<and>
               (\<not> has_key da k \<and> has_key db k \<longrightarrow> dict_get dout k = dict_get db k) \<and>
               (has_key da k \<and> \<not> has_key db k \<longrightarrow> dict_get dout k = dict_get da k))"
  proof (intro exI conjI allI impI)
    show "deep_merge a b = JDict (merge_items da db)"
      using ab by simp
  next
    fix k show "has_key (merge_items da db) k = (has_key da k \<or> has_key db k)"
      by (rule merge_items_has_key)
  next
    fix k assume "has_key da k \<and> has_key db k"
    then show "dict_get (merge_items da db) k = deep_merge (dict_get da k) (dict_get db k)"
      by (simp add: merge_items_get [OF dist])
  next
    fix k assume "\<not> has_key da k \<and> has_key db k"
    then show "dict_get (merge_items da db) k = dict_get db k"
      using absent [of k] by (simp add: merge_items_get [OF dist])
  next
    fix k assume "has_key da k \<and> \<not> has_key db k"
    then show "dict_get (merge_items da db) k = dict_get da k"
      by (simp add: merge_items_get [OF dist])
  qed
next
  assume "\<not> (is_dict a \<and> is_dict b)"
  then show "deep_merge a b = b" by (rule deep_merge_non_dict)
next
  show "deep_merge a a = a" using assms(1) by (rule deep_merge_idem)
qed

theorem deep_merge_spec_witness:
  "wf_jv (JDict [(''env'', JDict [(''A'', JInt 1)]), (''tests'', JList [JStr ''t1''])])
   \<and> wf_jv (JDict [(''env'', JDict [(''B'', JInt 2)]), (''tests'', JList [JStr ''t2''])])
   \<and> deep_merge (JDict [(''env'', JDict [(''A'', JInt 1)]), (''tests'', JList [JStr ''t1''])])
        (JDict [(''env'', JDict [(''B'', JInt 2)]), (''tests'', JList [JStr ''t2''])])
      = JDict [(''env'', JDict [(''A'', JInt 1), (''B'', JInt 2)]), (''tests'', JList [JStr ''t2''])]
   \<and> deep_merge (JList [JStr ''t1'']) (JList [JStr ''t2'']) = JList [JStr ''t2'']
   \<and> deep_merge (JDict [(''env'', JDict [(''A'', JInt 1)]), (''tests'', JList [JStr ''t1''])])
        (JDict [(''env'', JDict [(''A'', JInt 1)]), (''tests'', JList [JStr ''t1''])])
      = JDict [(''env'', JDict [(''A'', JInt 1)]), (''tests'', JList [JStr ''t1''])]"
proof -
  let ?a = "JDict [(''env'', JDict [(''A'', JInt 1)]), (''tests'', JList [JStr ''t1''])]"
  let ?b = "JDict [(''env'', JDict [(''B'', JInt 2)]), (''tests'', JList [JStr ''t2''])]"
  have wa: "wf_jv ?a" and wb: "wf_jv ?b" and wl: "wf_jv (JList [JStr ''t1''])"
    and wl2: "wf_jv (JList [JStr ''t2''])"
    by simp_all
  have idem: "deep_merge ?a ?a = ?a"
    using deep_merge_spec [OF wa wa] by (elim conjE)
  have repl: "deep_merge (JList [JStr ''t1'']) (JList [JStr ''t2'']) = JList [JStr ''t2'']"
    using deep_merge_spec [OF wl wl2] by simp
  have both: "deep_merge ?a ?b
      = JDict [(''env'', JDict [(''A'', JInt 1), (''B'', JInt 2)]), (''tests'', JList [JStr ''t2''])]"
    by simp
  show ?thesis using wa wb idem repl both by (intro conjI)
qed

section \<open>Properties of merge_named_list\<close>

lemma and_then_Inr: "and_then r f = Inr y \<longleftrightarrow> (\<exists>x. r = Inr x \<and> f x = Inr y)"
  by (cases r) (simp_all add: and_then_def)

lemma length_apply_overrides: "length (apply_overrides idx ov out) = length out"
  by (induction idx ov out rule: apply_overrides.induct) (simp_all split: option.splits)

lemma build_idx_step:
  "build_idx (x # xs) i idx0 = Inr idx \<Longrightarrow>
   \<exists>idx1. build_idx xs (Suc i) idx1 = Inr idx \<and>
          (\<forall>k. idx1 k = (if named x k then Some i else idx0 k))"
proof (cases x)
  case (JDict d)
  assume b: "build_idx (x # xs) i idx0 = Inr idx"
  show ?thesis
  proof (cases "has_key d ''name''")
    case True
    with b JDict have "build_idx xs (Suc i) (idx0(dict_get d ''name'' \<mapsto> i)) = Inr idx"
      by (simp split: if_splits)
    moreover have "\<forall>k. (idx0(dict_get d ''name'' \<mapsto> i)) k = (if named x k then Some i else idx0 k)"
      using True JDict by auto
    ultimately show ?thesis by blast
  next
    case False
    with b JDict have "build_idx xs (Suc i) idx0 = Inr idx" by simp
    moreover have "\<forall>k. idx0 k = (if named x k then Some i else idx0 k)"
      using False JDict by simp
    ultimately show ?thesis by blast
  qed
qed auto

lemma build_idx_sound:
  "build_idx items i0 idx0 = Inr idx \<Longrightarrow> idx k = Some j \<Longrightarrow>
     ((\<forall>j'<length items. \<not> named (items ! j') k) \<and> idx0 k = Some j)
   \<or> (i0 \<le> j \<and> j < i0 + length items \<and> named (items ! (j - i0)) k \<and>
        (\<forall>j'<length items. j - i0 < j' \<longrightarrow> \<not> named (items ! j') k))"
proof (induction items arbitrary: i0 idx0)
  case Nil
  then show ?case by simp
next
  case (Cons x xs)
  from build_idx_step [OF Cons.prems(1)] obtain idx1 where
    b: "build_idx xs (Suc i0) idx1 = Inr idx"
    and s: "\<forall>k. idx1 k = (if named x k then Some i0 else idx0 k)" by blast
  from Cons.IH [OF b Cons.prems(2)]
  show ?case
  proof
    assume a: "(\<forall>j'<length xs. \<not> named (xs ! j') k) \<and> idx1 k = Some j"
    show ?thesis
    proof (cases "named x k")
      case True
      with a s have "j = i0" by simp
      with True a show ?thesis by (auto simp: nth_Cons')
    next
      case False
      with a s have "idx0 k = Some j" by simp
      with False a show ?thesis by (auto simp: nth_Cons')
    qed
  next
    assume a: "Suc i0 \<le> j \<and> j < Suc i0 + length xs \<and> named (xs ! (j - Suc i0)) k \<and>
        (\<forall>j'<length xs. j - Suc i0 < j' \<longrightarrow> \<not> named (xs ! j') k)"
    then have e: "(x # xs) ! (j - i0) = xs ! (j - Suc i0)" by (simp add: nth_Cons')
    have "\<forall>j'<length (x # xs). j - i0 < j' \<longrightarrow> \<not> named ((x # xs) ! j') k"
    proof (intro allI impI)
      fix j' assume "j' < length (x # xs)" and "j - i0 < j'"
      with a have "j' - 1 < length xs" and "j - Suc i0 < j' - 1" and "j' \<noteq> 0" by auto
      with a show "\<not> named ((x # xs) ! j') k" by (simp add: nth_Cons')
    qed
    with a e show ?thesis by auto
  qed
qed

lemma build_idx_miss:
  "build_idx items i0 idx0 = Inr idx \<Longrightarrow> \<forall>j<length items. \<not> named (items ! j) k \<Longrightarrow>
   idx k = idx0 k"
proof (induction items arbitrary: i0 idx0)
  case Nil
  then show ?case by simp
next
  case (Cons x xs)
  from build_idx_step [OF Cons.prems(1)] obtain idx1 where
    b: "build_idx xs (Suc i0) idx1 = Inr idx"
    and s: "\<forall>k. idx1 k = (if named x k then Some i0 else idx0 k)" by blast
  from Cons.prems(2) have nx: "\<not> named x k" and nxs: "\<forall>j<length xs. \<not> named (xs ! j) k"
    by auto
  from Cons.IH [OF b nxs] s nx show ?case by simp
qed

lemma build_idx_last:
  "build_idx items i0 idx0 = Inr idx \<Longrightarrow> j < length items \<Longrightarrow> named (items ! j) k \<Longrightarrow>
   \<forall>j'<length items. j < j' \<longrightarrow> \<not> named (items ! j') k \<Longrightarrow> idx k = Some (i0 + j)"
proof (induction items arbitrary: i0 idx0 j)
  case Nil
  then show ?case by simp
next
  case (Cons x xs)
  from build_idx_step [OF Cons.prems(1)] obtain idx1 where
    b: "build_idx xs (Suc i0) idx1 = Inr idx"
    and s: "\<forall>k. idx1 k = (if named x k then Some i0 else idx0 k)" by blast
  show ?case
  proof (cases j)
    case 0
    with Cons.prems(3) have nx: "named x k" by simp
    have "\<forall>j'<length xs. \<not> named (xs ! j') k"
    proof (intro allI impI)
      fix j' assume "j' < length xs"
      with Cons.prems(4) 0 have "\<not> named ((x # xs) ! Suc j') k" by auto
      then show "\<not> named (xs ! j') k" by simp
    qed
    from build_idx_miss [OF b this] s nx 0 show ?thesis by simp
  next
    case (Suc j0)
    with Cons.prems(2,3) have l: "j0 < length xs" and n: "named (xs ! j0) k" by simp_all
    have "\<forall>j'<length xs. j0 < j' \<longrightarrow> \<not> named (xs ! j') k"
    proof (intro allI impI)
      fix j' assume "j' < length xs" and "j0 < j'"
      with Cons.prems(4) Suc have "\<not> named ((x # xs) ! Suc j') k" by auto
      then show "\<not> named (xs ! j') k" by simp
    qed
    from Cons.IH [OF b l n this] Suc show ?thesis by simp
  qed
qed

lemma apply_overrides_nth:
  assumes "distinct (map fst ov)"
    and inj: "\<forall>n n' j. idx (JStr n) = Some j \<and> idx (JStr n') = Some j \<longrightarrow> n = n'"
    and "i < length out"
  shows "(\<forall>n. has_key ov n \<and> idx (JStr n) = Some i \<longrightarrow>
            apply_overrides idx ov out ! i = deep_merge (out ! i) (dict_get ov n))
       \<and> ((\<forall>n. has_key ov n \<longrightarrow> idx (JStr n) \<noteq> Some i) \<longrightarrow>
            apply_overrides idx ov out ! i = out ! i)"
  using assms(1,3)
proof (induction ov arbitrary: out)
  case Nil
  then show ?case by simp
next
  case (Cons np ov)
  obtain name patch where np: "np = (name, patch)" by (cases np)
  from Cons.prems np have d: "distinct (map fst ov)" and nk: "\<not> has_key ov name"
    by (auto simp: has_key_iff)
  show ?case
  proof (cases "idx (JStr name)")
    case None
    have ih: "(\<forall>n. has_key ov n \<and> idx (JStr n) = Some i \<longrightarrow>
            apply_overrides idx ov out ! i = deep_merge (out ! i) (dict_get ov n))
       \<and> ((\<forall>n. has_key ov n \<longrightarrow> idx (JStr n) \<noteq> Some i) \<longrightarrow>
            apply_overrides idx ov out ! i = out ! i)"
      using Cons.IH [OF d Cons.prems(2)] .
    show ?thesis using ih None nk by (auto simp: np)
  next
    case (Some j)
    let ?out' = "out[j := deep_merge (out ! j) patch]"
    have len: "i < length ?out'" using Cons.prems(2) by simp
    have ih: "(\<forall>n. has_key ov n \<and> idx (JStr n) = Some i \<longrightarrow>
            apply_overrides idx ov ?out' ! i = deep_merge (?out' ! i) (dict_get ov n))
       \<and> ((\<forall>n. has_key ov n \<longrightarrow> idx (JStr n) \<noteq> Some i) \<longrightarrow>
            apply_overrides idx ov ?out' ! i = ?out' ! i)"
      using Cons.IH [OF d len] .
    show ?thesis
    proof (intro conjI allI impI)
      fix n assume h: "has_key (np # ov) n \<and> idx (JStr n) = Some i"
      show "apply_overrides idx (np # ov) out ! i = deep_merge (out ! i) (dict_get (np # ov) n)"
      proof (cases "n = name")
        case True
        with h Some have ji: "j = i" by simp
        have "\<forall>n'. has_key ov n' \<longrightarrow> idx (JStr n') \<noteq> Some i"
        proof (intro allI impI notI)
          fix n' assume "has_key ov n'" and "idx (JStr n') = Some i"
          with inj Some ji nk show False by blast
        qed
        with ih have "apply_overrides idx ov ?out' ! i = ?out' ! i" by blast
        then show ?thesis using True Some ji Cons.prems(2) by (simp add: np)
      next
        case False
        with h have hk: "has_key ov n" and ii: "idx (JStr n) = Some i" by (auto simp: np)
        have "j \<noteq> i" using inj ii Some False by blast
        then have "?out' ! i = out ! i" by simp
        with ih hk ii show ?thesis using False Some by (simp add: np)
      qed
    next
      assume h: "\<forall>n. has_key (np # ov) n \<longrightarrow> idx (JStr n) \<noteq> Some i"
      then have "j \<noteq> i" using Some by (auto simp: np)
      moreover from h have "\<forall>n. has_key ov n \<longrightarrow> idx (JStr n) \<noteq> Some i" by (auto simp: np)
      ultimately show "apply_overrides idx (np # ov) out ! i = out ! i"
        using ih Some by (simp add: np)
    qed
  qed
qed

lemma drop_disabled_filter:
  "drop_disabled xs = Inr ys \<Longrightarrow>
   ys = filter (\<lambda>x. \<not> is_disabled x) xs \<and> (\<forall>x\<in>set xs. is_dict x)"
proof (induction xs arbitrary: ys rule: drop_disabled.induct)
  case 1
  then show ?case by simp
next
  case (2 d xs)
  then show ?case by (auto simp: and_then_Inr)
qed simp_all


text \<open>
  Claim C9. Whenever \<open>merge_named_list\<close> returns, its result is the list of the base
  entries followed by the add-list entries, with the entries that carry a truthy
  \<open>disabled\<close> flag removed. Position \<open>i\<close> of the first part holds base entry \<open>i\<close>
  deep-merged with the override given for its name when there is one (and no later base
  entry has that name), and base entry \<open>i\<close> as it was otherwise: a patch is applied in
  place and moves nothing. The add-list entries come after every base entry in their
  given order, and no entry of the result has a truthy \<open>disabled\<close> flag.
\<close>

theorem merge_named_list_spec:
  assumes res: "merge_named_list base_list override_map add_list = Inr out"
    and wf: "wf_jv override_map"
  shows "\<exists>base ov adds pb.
           py_iter (py_or base_list (JList [])) = Inr base
         \<and> dict_items (py_or override_map (JDict [])) = Inr ov
         \<and> py_iter (py_or add_list (JList [])) = Inr adds
         \<and> length pb = length base
         \<and> (\<forall>i<length base. \<forall>n. overridden base ov i n \<longrightarrow>
               pb ! i = deep_merge (base ! i) (dict_get ov n))
         \<and> (\<forall>i<length base. (\<forall>n. \<not> overridden base ov i n) \<longrightarrow> pb ! i = base ! i)
         \<and> out = filter (\<lambda>x. \<not> is_disabled x) (pb @ adds)
         \<and> (\<forall>x\<in>set out. \<exists>d. x = JDict d \<and> \<not> truthy (dict_get d ''disabled''))"
proof -
  from res obtain base idx ov adds where
    b: "py_iter (py_or base_list (JList [])) = Inr base"
    and i: "build_idx base 0 Map.empty = Inr idx"
    and o: "dict_items (py_or override_map (JDict [])) = Inr ov"
    and a: "py_iter (py_or add_list (JList [])) = Inr adds"
    and d: "drop_disabled (apply_overrides idx ov base @ adds) = Inr out"
    unfolding merge_named_list_def and_then_Inr by (elim exE conjE)
  let ?pb = "apply_overrides idx ov base"
  have dist: "distinct (map fst ov)"
  proof (cases "truthy override_map")
    case True
    with o have "override_map = JDict ov"
      by (cases override_map) (simp_all add: py_or_def)
    with wf show ?thesis by simp
  next
    case False
    with o show ?thesis by (simp add: py_or_def)
  qed
  have inv: "\<And>k j. idx k = Some j \<Longrightarrow> j < length base \<and> named (base ! j) k \<and>
        (\<forall>j'<length base. j < j' \<longrightarrow> \<not> named (base ! j') k)"
    using build_idx_sound [OF i] by fastforce
  have inj: "\<forall>n n' j. idx (JStr n) = Some j \<and> idx (JStr n') = Some j \<longrightarrow> n = n'"
  proof (intro allI impI, elim conjE)
    fix n n' j assume "idx (JStr n) = Some j" and "idx (JStr n') = Some j"
    then have "named (base ! j) (JStr n)" and "named (base ! j) (JStr n')"
      using inv by blast+
    then show "n = n'" by (cases "base ! j") auto
  qed
  have hit: "\<forall>i<length base. \<forall>n. overridden base ov i n \<longrightarrow>
               ?pb ! i = deep_merge (base ! i) (dict_get ov n)"
  proof (intro allI impI)
    fix i n assume il: "i < length base" and ovr: "overridden base ov i n"
    then have "idx (JStr n) = Some (0 + i)"
      unfolding overridden_def by (intro build_idx_last [OF i]) simp_all
    with ovr apply_overrides_nth [OF dist inj il]
    show "?pb ! i = deep_merge (base ! i) (dict_get ov n)"
      by (simp add: overridden_def)
  qed
  have miss: "\<forall>i<length base. (\<forall>n. \<not> overridden base ov i n) \<longrightarrow> ?pb ! i = base ! i"
  proof (intro allI impI)
    fix i assume il: "i < length base" and no: "\<forall>n. \<not> overridden base ov i n"
    have "\<forall>n. has_key ov n \<longrightarrow> idx (JStr n) \<noteq> Some i"
    proof (intro allI impI notI)
      fix n assume "has_key ov n" and "idx (JStr n) = Some i"
      with inv [of "JStr n" i] have "overridden base ov i n" by (simp add: overridden_def)
      with no show False by blast
    qed
    with apply_overrides_nth [OF dist inj il] show "?pb ! i = base ! i" by blast
  qed
  from drop_disabled_filter [OF d]
  have f: "out = filter (\<lambda>x. \<not> is_disabled x) (?pb @ adds)"
    and alld: "\<forall>x\<in>set (?pb @ adds). is_dict x" by blast+
  have nd: "\<forall>x\<in>set out. \<exists>d. x = JDict d \<and> \<not> truthy (dict_get d ''disabled'')"
  proof
    fix x assume "x \<in> set out"
    with f have m: "x \<in> set (?pb @ adds)" and nd: "\<not> is_disabled x" by auto
    from alld m have "is_dict x" by blast
    then obtain d where "x = JDict d" by (cases x) auto
    with nd show "\<exists>d. x = JDict d \<and> \<not> truthy (dict_get d ''disabled'')" by simp
  qed
  show ?thesis
    apply (rule exI [of _ base], rule exI [of _ ov], rule exI [of _ adds], rule exI [of _ ?pb])
    using b o a length_apply_overrides [of idx ov base] hit miss f nd by (intro conjI)
qed

theorem merge_named_list_spec_witness:
  "merge_named_list
      (JList [JDict [(''name'', JStr ''a''), (''x'', JInt 1)], JDict [(''name'', JStr ''b'')],
              JDict [(''name'', JStr ''c'')]])
      (JDict [(''c'', JDict [(''x'', JInt 2)]), (''b'', JDict [(''disabled'', JBool True)])])
      (JList [JDict [(''name'', JStr ''z'')]])
    = Inr [JDict [(''name'', JStr ''a''), (''x'', JInt 1)],
           JDict [(''name'', JStr ''c''), (''x'', JInt 2)],
           JDict [(''name'', JStr ''z'')]]
   \<and> wf_jv (JDict [(''c'', JDict [(''x'', JInt 2)]), (''b'', JDict [(''disabled'', JBool True)])])
   \<and> (\<exists>pb. length pb = 3
         \<and> pb ! 0 = JDict [(''name'', JStr ''a''), (''x'', JInt 1)]
         \<and> pb ! 1 = JDict [(''name'', JStr ''b''), (''disabled'', JBool True)]
         \<and> pb ! 2 = JDict [(''name'', JStr ''c''), (''x'', JInt 2)]
         \<and> [JDict [(''name'', JStr ''a''), (''x'', JInt 1)],
            JDict [(''name'', JStr ''c''), (''x'', JInt 2)],
            JDict [(''name'', JStr ''z'')]]
           = filter (\<lambda>x. \<not> is_disabled x) (pb @ [JDict [(''name'', JStr ''z'')]]))"
proof -
  let ?base = "JList [JDict [(''name'', JStr ''a''), (''x'', JInt 1)], JDict [(''name'', JStr ''b'')],
              JDict [(''name'', JStr ''c'')]]"
  let ?ov = "JDict [(''c'', JDict [(''x'', JInt 2)]), (''b'', JDict [(''disabled'', JBool True)])]"
  let ?add = "JList [JDict [(''name'', JStr ''z'')]]"
  let ?out = "[JDict [(''name'', JStr ''a''), (''x'', JInt 1)],
           JDict [(''name'', JStr ''c''), (''x'', JInt 2)],
           JDict [(''name'', JStr ''z'')]]"
  have r: "merge_named_list ?base ?ov ?add = Inr ?out"
    by (simp add: merge_named_list_def and_then_def py_or_def)
  have w: "wf_jv ?ov" by simp
  from merge_named_list_spec [OF r w] obtain base ov adds pb where
    b: "py_iter (py_or ?base (JList [])) = Inr base"
    and o: "dict_items (py_or ?ov (JDict [])) = Inr ov"
    and a: "py_iter (py_or ?add (JList [])) = Inr adds"
    and l: "length pb = length base"
    and hit: "\<forall>i<length base. \<forall>n. overridden base ov i n \<longrightarrow>
               pb ! i = deep_merge (base ! i) (dict_get ov n)"
    and miss: "\<forall>i<length base. (\<forall>n. \<not> overridden base ov i n) \<longrightarrow> pb ! i = base ! i"
    and f: "?out = filter (\<lambda>x. \<not> is_disabled x) (pb @ adds)"
    by (elim exE conjE)
  from b have b': "base = [JDict [(''name'', JStr ''a''), (''x'', JInt 1)], JDict [(''name'', JStr ''b'')],
              JDict [(''name'', JStr ''c'')]]"
    by (simp add: py_or_def)
  from o have o': "ov = [(''c'', JDict [(''x'', JInt 2)]), (''b'', JDict [(''disabled'', JBool True)])]"
    by (simp add: py_or_def)
  from a have a': "adds = [JDict [(''name'', JStr ''z'')]]"
    by (simp add: py_or_def)
  have l3: "length pb = 3" using l by (simp add: b')
  have "\<forall>n. \<not> overridden base ov 0 n"
    unfolding b' o' by (auto simp: overridden_def)
  with miss have p0: "pb ! 0 = JDict [(''name'', JStr ''a''), (''x'', JInt 1)]"
    by (simp add: b')
  have "overridden base ov 1 ''b''"
    unfolding b' o' by (auto simp: overridden_def less_Suc_eq)
  with hit have p1: "pb ! 1 = JDict [(''name'', JStr ''b''), (''disabled'', JBool True)]"
    by (simp add: b' o')
  have "overridden base ov 2 ''c''"
    unfolding b' o' by (auto simp: overridden_def less_Suc_eq)
  with hit have p2: "pb ! 2 = JDict [(''name'', JStr ''c''), (''x'', JInt 2)]"
    by (simp add: b' o')
  have "\<exists>pb. length pb = 3
         \<and> pb ! 0 = JDict [(''name'', JStr ''a''), (''x'', JInt 1)]
         \<and> pb ! 1 = JDict [(''name'', JStr ''b''), (''disabled'', JBool True)]
         \<and> pb ! 2 = JDict [(''name'', JStr ''c''), (''x'', JInt 2)]
         \<and> ?out = filter (\<lambda>x. \<not> is_disabled x) (pb @ [JDict [(''name'', JStr ''z'')]])"
    using l3 p0 p1 p2 f unfolding a' by (intro exI [of _ pb] conjI)
  then show ?thesis using r w by (intro conjI)
qed


section \<open>Properties of resolve_vars\<close>

lemma not_var_char_dollar: "\<not> var_char CHR ''$''" and not_var_char_close: "\<not> var_char CHR ''}''"
  by (simp_all add: var_char_def)

lemma var_token_at_token:
  assumes "name \<noteq> []" and "\<forall>c\<in>set name. var_char c"
  shows "var_token_at (''${'' @ name @ ''}'' @ post) = Some (name, post)"
proof -
  have t: "takeWhile var_char (name @ CHR ''}'' # post) = name"
    using assms(2) not_var_char_close by (simp add: takeWhile_tail)
  have d: "dropWhile var_char (name @ CHR ''}'' # post) = CHR ''}'' # post"
    using assms(2) not_var_char_close by (simp add: dropWhile_append3)
  show ?thesis using assms(1) by (simp add: t d)
qed

lemma var_token_at_Some:
  assumes "var_token_at s = Some (name, rest)"
  shows "s = ''${'' @ name @ ''}'' @ rest \<and> name \<noteq> [] \<and> (\<forall>c\<in>set name. var_char c)"
proof (cases s rule: var_token_at.cases)
  case (1 c1 c2 t)
  with assms have c: "c1 = CHR ''$''" "c2 = CHR ''{''"
    and n: "name = takeWhile var_char t" "name \<noteq> []"
    and d: "dropWhile var_char t = CHR ''}'' # rest"
    by (auto split: if_splits list.splits)
  have "t = takeWhile var_char t @ dropWhile var_char t" by simp
  then have "t = name @ CHR ''}'' # rest" using n d by simp
  moreover have "\<forall>c\<in>set name. var_char c"
    using n(1) by (auto dest: set_takeWhileD)
  ultimately show ?thesis using 1 c n(2) by simp
qed (use assms in simp_all)

lemma var_token_at_append:
  "var_token_at ((c # cs) @ CHR ''$'' # u) =
     (case var_token_at (c # cs) of
        Some (n, r) \<Rightarrow> Some (n, r @ CHR ''$'' # u)
      | None \<Rightarrow> None)"
proof (cases cs)
  case Nil
  then show ?thesis by simp
next
  case (Cons c2 t)
  show ?thesis
  proof (cases "\<forall>x\<in>set t. var_char x")
    case True
    then have d1: "dropWhile var_char t = []" by simp
    have d2: "dropWhile var_char (t @ CHR ''$'' # u) = CHR ''$'' # u"
      using True not_var_char_dollar by (simp add: dropWhile_append3)
    show ?thesis by (simp add: Cons d1 d2)
  next
    case False
    then obtain x where x: "x \<in> set t" "\<not> var_char x" by blast
    then have e1: "dropWhile var_char (t @ CHR ''$'' # u) = dropWhile var_char t @ CHR ''$'' # u"
      and e2: "takeWhile var_char (t @ CHR ''$'' # u) = takeWhile var_char t"
      by (simp_all add: dropWhile_append1 takeWhile_append1)
    from x have "dropWhile var_char t \<noteq> []" by (auto simp: dropWhile_eq_Nil_conv)
    then obtain c3 rest where e3: "dropWhile var_char t = c3 # rest"
      by (cases "dropWhile var_char t") auto
    show ?thesis by (simp add: Cons e1 e2 e3)
  qed
qed

lemma sub_vars_token:
  assumes "name \<noteq> []" and "\<forall>c\<in>set name. var_char c"
  shows "sub_vars R vm env (pre @ ''${'' @ name @ ''}'' @ post) =
         sub_vars R vm env pre @ repl R vm env name @ sub_vars R vm env post"
proof (induction R vm env pre rule: sub_vars.induct)
  case (1 R vm env)
  have "var_token_at (CHR ''$'' # CHR ''{'' # name @ CHR ''}'' # post) = Some (name, post)"
    using var_token_at_token [OF assms, of post] by simp
  then show ?case by simp
next
  case (2 R vm env c cs)
  have app: "var_token_at ((c # cs) @ CHR ''$'' # (CHR ''{'' # name @ CHR ''}'' # post)) =
     (case var_token_at (c # cs) of
        Some (n, r) \<Rightarrow> Some (n, r @ CHR ''$'' # (CHR ''{'' # name @ CHR ''}'' # post))
      | None \<Rightarrow> None)"
    by (rule var_token_at_append)
  show ?case
  proof (cases "var_token_at (c # cs)")
    case None
    with app have "var_token_at (c # cs @ CHR ''$'' # CHR ''{'' # name @ CHR ''}'' # post) = None"
      by simp
    then show ?thesis using None "2.IH"(1) [OF None] by simp
  next
    case (Some nr)
    obtain n r where nr: "nr = (n, r)" by (cases nr)
    with app Some have
      "var_token_at (c # cs @ CHR ''$'' # CHR ''{'' # name @ CHR ''}'' # post) =
         Some (n, r @ CHR ''$'' # CHR ''{'' # name @ CHR ''}'' # post)"
      by simp
    then show ?thesis using Some nr "2.IH"(2) [OF Some [unfolded nr] refl] by simp
  qed
qed

lemma sub_vars_no_token: "\<not> has_var_token s \<Longrightarrow> sub_vars R vm env s = s"
  by (induction s) (auto split: option.splits)

lemma resolve_vars_token_free: "token_free obj \<Longrightarrow> resolve_vars R vm env obj = obj"
proof (induction obj)
  case (JList xs)
  then show ?case by (simp add: list_all_iff map_idI)
next
  case (JDict d)
  have "map (\<lambda>(k, v). (k, resolve_vars R vm env v)) d = d"
  proof (rule map_idI)
    fix kv assume m: "kv \<in> set d"
    obtain k v where kv: "kv = (k, v)" by (cases kv)
    from JDict.prems m kv have "token_free v" by (auto simp: list_all_iff)
    with JDict.IH [of kv v] m kv have "resolve_vars R vm env v = v" by simp
    then show "(case kv of (k, v) \<Rightarrow> (k, resolve_vars R vm env v)) = kv" by (simp add: kv)
  qed
  then show ?case by simp
qed (simp_all add: sub_vars_no_token)

lemma has_var_token_iff:
  "has_var_token s \<longleftrightarrow>
     (\<exists>pre name post. s = pre @ ''${'' @ name @ ''}'' @ post \<and> name \<noteq> [] \<and>
        (\<forall>c\<in>set name. var_char c))"
proof
  assume "has_var_token s"
  then show "\<exists>pre name post. s = pre @ ''${'' @ name @ ''}'' @ post \<and> name \<noteq> [] \<and>
        (\<forall>c\<in>set name. var_char c)"
  proof (induction s)
    case Nil
    then show ?case by simp
  next
    case (Cons c cs)
    show ?case
    proof (cases "var_token_at (c # cs)")
      case None
      with Cons.prems have "has_var_token cs" by simp
      from Cons.IH [OF this] obtain pre name post where
        "cs = pre @ ''${'' @ name @ ''}'' @ post" "name \<noteq> []" "\<forall>c\<in>set name. var_char c"
        by blast
      then have "c # cs = (c # pre) @ ''${'' @ name @ ''}'' @ post \<and> name \<noteq> [] \<and>
          (\<forall>c\<in>set name. var_char c)" by simp
      then show ?thesis by blast
    next
      case (Some nr)
      obtain n r where nr: "nr = (n, r)" by (cases nr)
      from var_token_at_Some [OF Some [unfolded nr]]
      have "c # cs = [] @ ''${'' @ n @ ''}'' @ r \<and> n \<noteq> [] \<and> (\<forall>c\<in>set n. var_char c)"
        by simp
      then show ?thesis by blast
    qed
  qed
next
  assume "\<exists>pre name post. s = pre @ ''${'' @ name @ ''}'' @ post \<and> name \<noteq> [] \<and>
        (\<forall>c\<in>set name. var_char c)"
  then obtain pre name post where s: "s = pre @ ''${'' @ name @ ''}'' @ post"
    and n: "name \<noteq> []" "\<forall>c\<in>set name. var_char c" by blast
  have "has_var_token (pre @ ''${'' @ name @ ''}'' @ post)"
  proof (induction pre)
    case Nil
    show ?case using var_token_at_token [OF n, of post] by simp
  next
    case (Cons c pre)
    then show ?case by simp
  qed
  then show "has_var_token s" by (simp add: s)
qed


text \<open>
  Claim C6. \<open>resolve_vars\<close> replaces every \<open>${NAME}\<close> token (\<open>NAME\<close> a non-empty run of
  \<open>A-Z\<close>, \<open>0-9\<close>, \<open>_\<close>) of every string value, in lists and dict values at any depth:
  the text before and after a token is resolved on its own, and the token becomes the
  \<open>str\<close> of the vars map's value when the map has the name, else the environment's value
  when the environment has it, else the token itself, verbatim. The function is total
  (no branch raises). A value none of whose strings holds such a token is returned
  unchanged.
\<close>

theorem resolve_vars_spec:
  "(name \<noteq> [] \<and> (\<forall>c\<in>set name. var_char c) \<longrightarrow>
      sub_vars R vm env (pre @ ''${'' @ name @ ''}'' @ post) =
        sub_vars R vm env pre
        @ (if has_key vm name then py_str R (dict_get vm name)
           else (case env name of Some e \<Rightarrow> e | None \<Rightarrow> ''${'' @ name @ ''}''))
        @ sub_vars R vm env post)
   \<and> resolve_vars R vm env (JStr s) = JStr (sub_vars R vm env s)
   \<and> resolve_vars R vm env (JList xs) = JList (map (resolve_vars R vm env) xs)
   \<and> resolve_vars R vm env (JDict d) = JDict (map (\<lambda>(k, v). (k, resolve_vars R vm env v)) d)
   \<and> (has_var_token s \<longleftrightarrow>
        (\<exists>pre name post. s = pre @ ''${'' @ name @ ''}'' @ post \<and> name \<noteq> [] \<and>
           (\<forall>c\<in>set name. var_char c)))
   \<and> (token_free obj \<longrightarrow> resolve_vars R vm env obj = obj)"
proof (intro conjI impI)
  assume "name \<noteq> [] \<and> (\<forall>c\<in>set name. var_char c)"
  then have n: "name \<noteq> []" "\<forall>c\<in>set name. var_char c" by blast+
  show "sub_vars R vm env (pre @ ''${'' @ name @ ''}'' @ post) =
        sub_vars R vm env pre
        @ (if has_key vm name then py_str R (dict_get vm name)
           else (case env name of Some e \<Rightarrow> e | None \<Rightarrow> ''${'' @ name @ ''}''))
        @ sub_vars R vm env post"
    using sub_vars_token [OF n, of R vm env pre post] by (simp add: repl_def)
next
  show "has_var_token s \<longleftrightarrow>
        (\<exists>pre name post. s = pre @ ''${'' @ name @ ''}'' @ post \<and> name \<noteq> [] \<and>
           (\<forall>c\<in>set name. var_char c))"
    by (rule has_var_token_iff)
next
  assume "token_free obj"
  then show "resolve_vars R vm env obj = obj" by (rule resolve_vars_token_free)
qed simp_all

theorem resolve_vars_spec_witness:
  "sub_vars (\<lambda>v. ''?'') [(''BE_PORT'', JStr ''5000'')] [''HOME'' \<mapsto> ''/root'']
     (''a:'' @ ''${'' @ ''BE_PORT'' @ ''}'' @ ''/${HOME}/${NOPE}'') = ''a:5000//root/${NOPE}''
   \<and> token_free (JList [JStr ''${lower}'', JStr ''$HOME'', JInt 3])
   \<and> resolve_vars (\<lambda>v. ''?'') [(''BE_PORT'', JStr ''5000'')] [''HOME'' \<mapsto> ''/root'']
        (JList [JStr ''${lower}'', JStr ''$HOME'', JInt 3])
      = JList [JStr ''${lower}'', JStr ''$HOME'', JInt 3]"
proof -
  let ?R = "\<lambda>v::jv. ''?''"
  let ?vm = "[(''BE_PORT'', JStr ''5000'')]"
  let ?env = "[''HOME'' \<mapsto> ''/root'']"
  let ?obj = "JList [JStr ''${lower}'', JStr ''$HOME'', JInt 3]"
  have vc: "''BE_PORT'' \<noteq> [] \<and> (\<forall>c\<in>set ''BE_PORT''. var_char c)"
    by (simp add: var_char_def)
  have tf: "token_free ?obj"
    by (simp add: var_char_def)
  note spec = resolve_vars_spec [of "''BE_PORT''" ?R ?vm ?env "''a:''" "''/${HOME}/${NOPE}''"
      "[]" "[]" "[]" ?obj]
  from spec vc have
    "sub_vars ?R ?vm ?env (''a:'' @ ''${'' @ ''BE_PORT'' @ ''}'' @ ''/${HOME}/${NOPE}'') =
       sub_vars ?R ?vm ?env ''a:''
       @ (if has_key ?vm ''BE_PORT'' then py_str ?R (dict_get ?vm ''BE_PORT'')
          else (case ?env ''BE_PORT'' of Some e \<Rightarrow> e | None \<Rightarrow> ''${'' @ ''BE_PORT'' @ ''}''))
       @ sub_vars ?R ?vm ?env ''/${HOME}/${NOPE}''"
    by blast
  then have a: "sub_vars ?R ?vm ?env (''a:'' @ ''${'' @ ''BE_PORT'' @ ''}'' @ ''/${HOME}/${NOPE}'')
      = ''a:5000//root/${NOPE}''"
    by (simp add: py_str_def repl_def var_char_def)
  from spec tf have b: "resolve_vars ?R ?vm ?env ?obj = ?obj" by blast
  show ?thesis using a tf b by (intro conjI)
qed


section \<open>Properties of template resolution\<close>

lemma starts_with_iff: "starts_with s p \<longleftrightarrow> (\<exists>r. s = p @ r)"
  by (induction s p rule: starts_with.induct) auto

lemma is_substr_iff: "is_substr k t \<longleftrightarrow> (\<exists>pre post. t = pre @ k @ post)"
proof (induction t)
  case Nil
  then show ?case by auto
next
  case (Cons c cs)
  show ?case
  proof
    assume "is_substr k (c # cs)"
    then consider "starts_with (c # cs) k" | "is_substr k cs" by auto
    then show "\<exists>pre post. c # cs = pre @ k @ post"
    proof cases
      case 1
      then obtain r where "c # cs = k @ r" by (auto simp: starts_with_iff)
      then have "c # cs = [] @ k @ r" by simp
      then show ?thesis by blast
    next
      case 2
      with Cons.IH obtain pre post where "cs = pre @ k @ post" by blast
      then have "c # cs = (c # pre) @ k @ post" by simp
      then show ?thesis by blast
    qed
  next
    assume "\<exists>pre post. c # cs = pre @ k @ post"
    then obtain pre post where e: "c # cs = pre @ k @ post" by blast
    show "is_substr k (c # cs)"
    proof (cases pre)
      case Nil
      with e have "starts_with (c # cs) k" by (auto simp: starts_with_iff)
      then show ?thesis by simp
    next
      case (Cons a pre')
      with e have "cs = pre' @ k @ post" by simp
      with Cons.IH have "is_substr k cs" by blast
      then show ?thesis by simp
    qed
  qed
qed

lemma best_loop_spec:
  "best_loop py_lower t reg best score = Inr r \<Longrightarrow>
     (r = best \<and> (\<forall>(n, p)\<in>set reg. \<exists>s. kw_score py_lower t p = Inr s \<and> s \<le> score))
   \<or> (\<exists>pre b tpl post m. reg = pre @ (b, tpl) # post \<and> r = Some b \<and>
          kw_score py_lower t tpl = Inr m \<and> score < m \<and>
          (\<forall>(n, p)\<in>set pre. \<exists>s. kw_score py_lower t p = Inr s \<and> s < m) \<and>
          (\<forall>(n, p)\<in>set post. \<exists>s. kw_score py_lower t p = Inr s \<and> s \<le> m))"
proof (induction reg arbitrary: best score)
  case Nil
  then show ?case by simp
next
  case (Cons nt reg)
  obtain name tpl where nt: "nt = (name, tpl)" by (cases nt)
  from Cons.prems nt obtain sc where sc: "kw_score py_lower t tpl = Inr sc"
    by (cases "kw_score py_lower t tpl") auto
  show ?case
  proof (cases "sc > score")
    case True
    with Cons.prems nt sc have "best_loop py_lower t reg (Some name) sc = Inr r" by simp
    from Cons.IH [OF this] show ?thesis
    proof
      assume a: "r = Some name \<and> (\<forall>(n, p)\<in>set reg. \<exists>s. kw_score py_lower t p = Inr s \<and> s \<le> sc)"
      have "nt # reg = [] @ (name, tpl) # reg \<and> r = Some name \<and> kw_score py_lower t tpl = Inr sc \<and>
            score < sc \<and> (\<forall>(n, p)\<in>set []. \<exists>s. kw_score py_lower t p = Inr s \<and> s < sc) \<and>
            (\<forall>(n, p)\<in>set reg. \<exists>s. kw_score py_lower t p = Inr s \<and> s \<le> sc)"
        using a True sc nt by simp
      then show ?thesis by blast
    next
      assume "\<exists>pre b tpl post m. reg = pre @ (b, tpl) # post \<and> r = Some b \<and>
          kw_score py_lower t tpl = Inr m \<and> sc < m \<and>
          (\<forall>(n, p)\<in>set pre. \<exists>s. kw_score py_lower t p = Inr s \<and> s < m) \<and>
          (\<forall>(n, p)\<in>set post. \<exists>s. kw_score py_lower t p = Inr s \<and> s \<le> m)"
      then obtain pre b tpl' post m where h: "reg = pre @ (b, tpl') # post" "r = Some b"
          "kw_score py_lower t tpl' = Inr m" "sc < m"
          "\<forall>(n, p)\<in>set pre. \<exists>s. kw_score py_lower t p = Inr s \<and> s < m"
          "\<forall>(n, p)\<in>set post. \<exists>s. kw_score py_lower t p = Inr s \<and> s \<le> m"
        by blast
      have "nt # reg = ((name, tpl) # pre) @ (b, tpl') # post \<and> r = Some b \<and>
            kw_score py_lower t tpl' = Inr m \<and> score < m \<and>
            (\<forall>(n, p)\<in>set ((name, tpl) # pre). \<exists>s. kw_score py_lower t p = Inr s \<and> s < m) \<and>
            (\<forall>(n, p)\<in>set post. \<exists>s. kw_score py_lower t p = Inr s \<and> s \<le> m)"
        using h True sc nt by simp
      then show ?thesis by blast
    qed
  next
    case False
    with Cons.prems nt sc have "best_loop py_lower t reg best score = Inr r" by simp
    from Cons.IH [OF this] show ?thesis
    proof
      assume "r = best \<and> (\<forall>(n, p)\<in>set reg. \<exists>s. kw_score py_lower t p = Inr s \<and> s \<le> score)"
      then show ?thesis using False sc nt by simp
    next
      assume "\<exists>pre b tpl post m. reg = pre @ (b, tpl) # post \<and> r = Some b \<and>
          kw_score py_lower t tpl = Inr m \<and> score < m \<and>
          (\<forall>(n, p)\<in>set pre. \<exists>s. kw_score py_lower t p = Inr s \<and> s < m) \<and>
          (\<forall>(n, p)\<in>set post. \<exists>s. kw_score py_lower t p = Inr s \<and> s \<le> m)"
      then obtain pre b tpl' post m where h: "reg = pre @ (b, tpl') # post" "r = Some b"
          "kw_score py_lower t tpl' = Inr m" "score < m"
          "\<forall>(n, p)\<in>set pre. \<exists>s. kw_score py_lower t p = Inr s \<and> s < m"
          "\<forall>(n, p)\<in>set post. \<exists>s. kw_score py_lower t p = Inr s \<and> s \<le> m"
        by blast
      have "nt # reg = ((name, tpl) # pre) @ (b, tpl') # post \<and> r = Some b \<and>
            kw_score py_lower t tpl' = Inr m \<and> score < m \<and>
            (\<forall>(n, p)\<in>set ((name, tpl) # pre). \<exists>s. kw_score py_lower t p = Inr s \<and> s < m) \<and>
            (\<forall>(n, p)\<in>set post. \<exists>s. kw_score py_lower t p = Inr s \<and> s \<le> m)"
        using h False sc nt by simp
      then show ?thesis by blast
    qed
  qed
qed

lemma best_match_topic_or:
  "best_match_by_topic py_lower reg (Some (case topic of None \<Rightarrow> [] | Some s \<Rightarrow> s)) = best_match_by_topic py_lower reg topic"
  by (cases topic) (simp_all add: best_match_by_topic_def)


lemma kw_score_spec:
  "py_iter (detect_of tpl) = Inr ks \<Longrightarrow>
   kw_score py_lower t tpl = Inr (length (filter (\<lambda>k. \<exists>pre post. t = pre @ k @ post) (kw_list py_lower ks)))"
  by (simp add: kw_score_def and_then_def is_substr_iff)


lemma has_all_dict: "has_all (JDict d) req = Inr (list_all (has_key d) req)"
  by (induction req) (simp_all add: and_then_def)

lemma check_entry_iff: "check_entry req cmd_key x = Inr u \<longleftrightarrow> valid_entry req cmd_key x"
proof (cases x)
  case (JDict d)
  then show ?thesis
    by (auto simp: check_entry_def valid_entry_def has_all_dict and_then_def norm_cmd_list_def
        split: jv.splits)
next
  case JNull
  then show ?thesis
    by (cases "has_all x req") (simp_all add: check_entry_def valid_entry_def and_then_def)
next
  case (JBool b)
  then show ?thesis
    by (cases "has_all x req") (simp_all add: check_entry_def valid_entry_def and_then_def)
next
  case (JInt n)
  then show ?thesis
    by (cases "has_all x req") (simp_all add: check_entry_def valid_entry_def and_then_def)
next
  case (JStr s)
  then show ?thesis
    by (cases "has_all x req") (simp_all add: check_entry_def valid_entry_def and_then_def)
next
  case (JList xs)
  then show ?thesis
    by (cases "has_all x req") (simp_all add: check_entry_def valid_entry_def and_then_def)
qed

lemma map_result_unit:
  fixes f :: "'a \<Rightarrow> py_error + unit"
  shows "(\<exists>ys. map_result f xs = Inr ys) \<longleftrightarrow> list_all (\<lambda>x. f x = Inr ()) xs"
proof (induction xs)
  case Nil
  then show ?case by simp
next
  case (Cons x xs)
  show ?case
  proof (cases "f x")
    case (Inl e)
    then show ?thesis by (simp add: and_then_def)
  next
    case (Inr u)
    show ?thesis
    proof (cases "map_result f xs")
      case i: (Inl e)
      with Cons.IH Inr show ?thesis by (simp add: and_then_def)
    next
      case r: (Inr ys)
      with Cons.IH Inr show ?thesis by (simp add: and_then_def)
    qed
  qed
qed

lemma validate_template_iff: "validate_template tpl = Inr u \<longleftrightarrow> valid_template tpl"
proof (cases "list_under tpl ''services''")
  case None
  then show ?thesis
    by (auto simp: validate_template_def valid_template_def list_under_def
        split: if_splits jv.splits)
next
  case s: (Some svcs)
  show ?thesis
  proof (cases "list_under tpl ''tests''")
    case None
    with s show ?thesis
      by (auto simp: validate_template_def valid_template_def list_under_def
          split: if_splits jv.splits)
  next
    case t: (Some ts)
    from s have ks: "has_key tpl ''services''" and gs: "dict_get tpl ''services'' = JList svcs"
      by (auto simp: list_under_def split: if_splits jv.splits)
    from t have kt: "has_key tpl ''tests''" and gt: "dict_get tpl ''tests'' = JList ts"
      by (auto simp: list_under_def split: if_splits jv.splits)
    let ?cs = "check_entry [''name'', ''cwd'', ''start''] ''start''"
    let ?ct = "check_entry [''name'', ''type'', ''cwd'', ''cmd''] ''cmd''"
    have "validate_template tpl = Inr u \<longleftrightarrow>
            (\<exists>a. map_result ?cs svcs = Inr a) \<and> (\<exists>b. map_result ?ct ts = Inr b)"
      using s t by (auto simp: validate_template_def and_then_Inr)
    also have "\<dots> \<longleftrightarrow> list_all (\<lambda>x. ?cs x = Inr ()) svcs \<and> list_all (\<lambda>x. ?ct x = Inr ()) ts"
      by (simp only: map_result_unit)
    also have "\<dots> \<longleftrightarrow> valid_template tpl"
      using ks gs kt gt by (simp add: valid_template_def check_entry_iff)
    finally show ?thesis .
  qed
qed

lemma fold_setdefault_keeps:
  "has_key d0 k \<Longrightarrow> has_key (fold (\<lambda>kv d. setdefault d (fst kv) (snd kv)) disc d0) k"
  by (induction disc arbitrary: d0) (simp_all add: setdefault_def has_key_set)

lemma hydrate_keeps:
  assumes "hydrate_files_from_stack_dir env tpl = Inr tpl2"
    and "k \<noteq> ''files''" and "k \<noteq> ''editable_files''"
  shows "has_key tpl2 k = has_key tpl k \<and> dict_get tpl2 k = dict_get tpl k"
  using assms
  by (auto simp: hydrate_files_from_stack_dir_def and_then_Inr Let_def has_key_set dict_get_set
      split: if_splits)

lemma valid_template_cong:
  "has_key a ''services'' = has_key b ''services'' \<Longrightarrow>
   dict_get a ''services'' = dict_get b ''services'' \<Longrightarrow>
   has_key a ''tests'' = has_key b ''tests'' \<Longrightarrow>
   dict_get a ''tests'' = dict_get b ''tests'' \<Longrightarrow> valid_template a = valid_template b"
  by (simp add: valid_template_def)

lemma valid_with_path: "valid_template (with_path env c tpl) = valid_template tpl"
  by (rule valid_template_cong) (simp_all add: with_path_def has_key_set dict_get_set)

lemma valid_hydrated:
  assumes "hydrate_files_from_stack_dir env tpl = Inr tpl2"
  shows "valid_template tpl2 = valid_template tpl"
  by (rule valid_template_cong) (simp_all add: hydrate_keeps [OF assms])

lemma use_existing_iff:
  "use_existing env c tpl = Inr r \<longleftrightarrow>
     valid_template tpl \<and>
     (\<exists>tpl2. hydrate_files_from_stack_dir env (with_path env c tpl) = Inr tpl2 \<and>
             r = UseExisting c tpl2)"
proof -
  have "use_existing env c tpl = Inr r \<longleftrightarrow>
     (\<exists>tpl2. hydrate_files_from_stack_dir env (with_path env c tpl) = Inr tpl2 \<and>
             valid_template tpl2 \<and> r = UseExisting c tpl2)"
    by (auto simp: use_existing_def and_then_Inr validate_template_iff)
  also have "\<dots> \<longleftrightarrow> valid_template tpl \<and>
     (\<exists>tpl2. hydrate_files_from_stack_dir env (with_path env c tpl) = Inr tpl2 \<and>
             r = UseExisting c tpl2)"
    using valid_hydrated [of env "with_path env c tpl"] valid_with_path [of env c tpl] by blast
  finally show ?thesis .
qed

lemma best_match_member:
  assumes "best_match_by_topic py_lower reg topic = Inr (Some c)"
  shows "\<exists>tpl. (c, tpl) \<in> set reg"
proof -
  from assms have "best_loop py_lower (py_lower (case topic of None \<Rightarrow> [] | Some s \<Rightarrow> s)) reg None 0
      = Inr (Some c)"
    by (simp add: best_match_by_topic_def)
  from best_loop_spec [OF this] obtain pre tpl post where "reg = pre @ (c, tpl) # post"
    by auto
  then have "(c, tpl) \<in> set reg" by simp
  then show ?thesis ..
qed

text \<open>
  Claim C8, as amended. A name that is given (non-empty) decides alone: when the registry
  has a template of that name, that template is used, and when it has none the generator
  is called; no keyword is scored in either case. With no name, every registered template
  is scored by the number of its string detection keywords that occur, after
  \<open>str.lower()\<close>, as substrings of the topic after \<open>str.lower()\<close>; the first template with
  the highest score is used when that score is positive, and the generator is called when
  every score is zero; an exception of the scoring (a \<open>detect\<close> value that cannot be
  iterated) leaves the function. A template that is used is hydrated and then validated:
  the function returns it, hydrated, exactly when the hydration returns and the template
  is valid, and an exception leaves the function otherwise.
\<close>

theorem template_resolution_spec:
  assumes "distinct (map fst reg)"
  shows "(\<forall>n tpl. name = Some n \<and> n \<noteq> [] \<and> (n, tpl) \<in> set reg \<longrightarrow>
            load_or_autogen_template env py_lower reg topic name = use_existing env n tpl)
       \<and> (\<forall>n. name = Some n \<and> n \<noteq> [] \<and> n \<notin> fst ` set reg \<longrightarrow>
            load_or_autogen_template env py_lower reg topic name = call_autogen env topic name)
       \<and> (name = None \<or> name = Some [] \<longrightarrow>
            (\<forall>e. best_match_by_topic py_lower reg topic = Inl e \<longrightarrow>
               load_or_autogen_template env py_lower reg topic name = Inl e)
          \<and> (best_match_by_topic py_lower reg topic = Inr None \<longrightarrow>
               load_or_autogen_template env py_lower reg topic name = call_autogen env topic name)
          \<and> (\<forall>b. best_match_by_topic py_lower reg topic = Inr (Some b) \<longrightarrow>
               (\<exists>tpl. (b, tpl) \<in> set reg \<and>
                  load_or_autogen_template env py_lower reg topic name =
                    (if b \<noteq> [] then use_existing env b tpl else call_autogen env topic name))))
       \<and> (\<forall>r. best_match_by_topic py_lower reg topic = Inr r \<longrightarrow>
             (r = None \<and>
                (\<forall>(n, p)\<in>set reg.
                   kw_score py_lower (py_lower (case topic of None \<Rightarrow> [] | Some s \<Rightarrow> s)) p = Inr 0))
           \<or> (\<exists>pre b tpl post m. reg = pre @ (b, tpl) # post \<and> r = Some b \<and>
                 kw_score py_lower (py_lower (case topic of None \<Rightarrow> [] | Some s \<Rightarrow> s)) tpl = Inr m \<and>
                 0 < m \<and>
                 (\<forall>(n, p)\<in>set pre. \<exists>s.
                    kw_score py_lower (py_lower (case topic of None \<Rightarrow> [] | Some s \<Rightarrow> s)) p = Inr s \<and>
                    s < m) \<and>
                 (\<forall>(n, p)\<in>set post. \<exists>s.
                    kw_score py_lower (py_lower (case topic of None \<Rightarrow> [] | Some s \<Rightarrow> s)) p = Inr s \<and>
                    s \<le> m)))
       \<and> (\<forall>tpl ks t. py_iter (detect_of tpl) = Inr ks \<longrightarrow>
             kw_score py_lower t tpl =
               Inr (length (filter (\<lambda>k. \<exists>pre post. t = pre @ k @ post) (kw_list py_lower ks))))
       \<and> (\<forall>c tpl r. use_existing env c tpl = Inr r \<longleftrightarrow>
             valid_template tpl \<and>
             (\<exists>tpl2. hydrate_files_from_stack_dir env (with_path env c tpl) = Inr tpl2 \<and>
                     r = UseExisting c tpl2))"
proof -
  let ?load = "load_or_autogen_template env py_lower reg topic name"
  let ?best = "best_match_by_topic py_lower reg topic"
  let ?t = "py_lower (case topic of None \<Rightarrow> [] | Some s \<Rightarrow> s)"
  have p1: "\<forall>n tpl. name = Some n \<and> n \<noteq> [] \<and> (n, tpl) \<in> set reg \<longrightarrow> ?load = use_existing env n tpl"
  proof (intro allI impI)
    fix n tpl assume a: "name = Some n \<and> n \<noteq> [] \<and> (n, tpl) \<in> set reg"
    with assms have "map_of reg n = Some tpl" by simp
    with a show "?load = use_existing env n tpl"
      by (simp add: load_or_autogen_template_def and_then_def)
  qed
  have p2: "\<forall>n. name = Some n \<and> n \<noteq> [] \<and> n \<notin> fst ` set reg \<longrightarrow> ?load = call_autogen env topic name"
  proof (intro allI impI)
    fix n assume a: "name = Some n \<and> n \<noteq> [] \<and> n \<notin> fst ` set reg"
    then have "map_of reg n = None" by (simp add: map_of_eq_None_iff)
    with a show "?load = call_autogen env topic name"
      by (simp add: load_or_autogen_template_def and_then_def)
  qed
  have p3: "name = None \<or> name = Some [] \<longrightarrow>
            (\<forall>e. ?best = Inl e \<longrightarrow> ?load = Inl e)
          \<and> (?best = Inr None \<longrightarrow> ?load = call_autogen env topic name)
          \<and> (\<forall>b. ?best = Inr (Some b) \<longrightarrow>
               (\<exists>tpl. (b, tpl) \<in> set reg \<and>
                  ?load = (if b \<noteq> [] then use_existing env b tpl else call_autogen env topic name)))"
  proof
    assume nm: "name = None \<or> name = Some []"
    have chosen: "?load =
        and_then ?best (\<lambda>chosen.
          case chosen of
            Some c \<Rightarrow>
              if c \<noteq> []
              then (case map_of reg c of
                      Some tpl \<Rightarrow> use_existing env c tpl
                    | None \<Rightarrow> call_autogen env topic name)
              else call_autogen env topic name
          | None \<Rightarrow> call_autogen env topic name)"
      using nm by (auto simp: load_or_autogen_template_def best_match_topic_or)
    have a: "\<forall>e. ?best = Inl e \<longrightarrow> ?load = Inl e"
      by (simp add: chosen and_then_def)
    have b: "?best = Inr None \<longrightarrow> ?load = call_autogen env topic name"
      by (simp add: chosen and_then_def)
    have c: "\<forall>b. ?best = Inr (Some b) \<longrightarrow>
               (\<exists>tpl. (b, tpl) \<in> set reg \<and>
                  ?load = (if b \<noteq> [] then use_existing env b tpl else call_autogen env topic name))"
    proof (intro allI impI)
      fix b assume bm: "?best = Inr (Some b)"
      from best_match_member [OF this] obtain tpl where m: "(b, tpl) \<in> set reg" ..
      with assms have "map_of reg b = Some tpl" by simp
      with bm have "?load = (if b \<noteq> [] then use_existing env b tpl else call_autogen env topic name)"
        by (simp add: chosen and_then_def)
      with m show "\<exists>tpl. (b, tpl) \<in> set reg \<and>
                  ?load = (if b \<noteq> [] then use_existing env b tpl else call_autogen env topic name)"
        by blast
    qed
    show "(\<forall>e. ?best = Inl e \<longrightarrow> ?load = Inl e)
          \<and> (?best = Inr None \<longrightarrow> ?load = call_autogen env topic name)
          \<and> (\<forall>b. ?best = Inr (Some b) \<longrightarrow>
               (\<exists>tpl. (b, tpl) \<in> set reg \<and>
                  ?load = (if b \<noteq> [] then use_existing env b tpl else call_autogen env topic name)))"
      using a b c by (intro conjI)
  qed
  have p4: "\<forall>r. ?best = Inr r \<longrightarrow>
             (r = None \<and> (\<forall>(n, p)\<in>set reg. kw_score py_lower ?t p = Inr 0))
           \<or> (\<exists>pre b tpl post m. reg = pre @ (b, tpl) # post \<and> r = Some b \<and>
                 kw_score py_lower ?t tpl = Inr m \<and> 0 < m \<and>
                 (\<forall>(n, p)\<in>set pre. \<exists>s. kw_score py_lower ?t p = Inr s \<and> s < m) \<and>
                 (\<forall>(n, p)\<in>set post. \<exists>s. kw_score py_lower ?t p = Inr s \<and> s \<le> m))"
  proof (intro allI impI)
    fix r assume "?best = Inr r"
    then have "best_loop py_lower ?t reg None 0 = Inr r"
      by (simp add: best_match_by_topic_def)
    from best_loop_spec [OF this]
    show "(r = None \<and> (\<forall>(n, p)\<in>set reg. kw_score py_lower ?t p = Inr 0))
           \<or> (\<exists>pre b tpl post m. reg = pre @ (b, tpl) # post \<and> r = Some b \<and>
                 kw_score py_lower ?t tpl = Inr m \<and> 0 < m \<and>
                 (\<forall>(n, p)\<in>set pre. \<exists>s. kw_score py_lower ?t p = Inr s \<and> s < m) \<and>
                 (\<forall>(n, p)\<in>set post. \<exists>s. kw_score py_lower ?t p = Inr s \<and> s \<le> m))"
      by (elim disjE) (rule disjI1, fastforce, rule disjI2, assumption)
  qed
  have p5: "\<forall>tpl ks t. py_iter (detect_of tpl) = Inr ks \<longrightarrow>
             kw_score py_lower t tpl =
               Inr (length (filter (\<lambda>k. \<exists>pre post. t = pre @ k @ post) (kw_list py_lower ks)))"
    by (intro allI impI) (rule kw_score_spec)
  have p6: "\<forall>c tpl r. use_existing env c tpl = Inr r \<longleftrightarrow>
             valid_template tpl \<and>
             (\<exists>tpl2. hydrate_files_from_stack_dir env (with_path env c tpl) = Inr tpl2 \<and>
                     r = UseExisting c tpl2)"
    by (intro allI) (rule use_existing_iff)
  show ?thesis using p1 p2 p3 p4 p5 p6 by (intro conjI)
qed

lemmas registry_defs = demo_registry_def flask_template_def fastapi_template_def
  broken_template_def generated_template_def demo_env_def

lemmas hydrate_defs = hydrate_files_from_stack_dir_def with_path_def py_dict_def py_or_def
  get_default_def setdefault_def editable_def ends_with_def and_then_def Let_def

theorem template_resolution_spec_witness:
  "distinct (map fst demo_registry)
   \<and> load_or_autogen_template demo_env ascii_lower demo_registry
        (Some ''Build a Flask API'') (Some ''fastapi'')
      = Inr (UseExisting ''fastapi''
               (fastapi_template @
                [(''__path'', JStr ''templates/backend/fastapi/stack.test.yaml''),
                 (''files'', JDict [(''backend/app.py'', JStr ''app''),
                                    (''backend/logo.png.txt'', JStr ''x'')]),
                 (''editable_files'', JList [JStr ''backend/app.py''])]))
   \<and> best_match_by_topic ascii_lower demo_registry (Some ''Build a Flask API'')
      = Inr (Some ''flask'')
   \<and> load_or_autogen_template demo_env ascii_lower demo_registry
        (Some ''Build a Flask API'') None
      = Inr (UseExisting ''flask''
               (flask_template @
                [(''__path'', JStr ''templates/backend/flask/stack.test.yaml''),
                 (''files'', JDict [(''backend/app.py'', JStr ''app''),
                                    (''backend/logo.png.txt'', JStr ''x'')]),
                 (''editable_files'', JList [JStr ''backend/app.py''])]))
   \<and> load_or_autogen_template demo_env ascii_lower demo_registry
        (Some ''Build a Flask API'') (Some ''django'')
      = Inl ValueError"
proof -
  let ?topic = "Some ''Build a Flask API''"
  let ?extra = "\<lambda>c. [(''__path'', JStr (''templates/backend/'' @ c @ ''/stack.test.yaml'')),
                 (''files'', JDict [(''backend/app.py'', JStr ''app''),
                                    (''backend/logo.png.txt'', JStr ''x'')]),
                 (''editable_files'', JList [JStr ''backend/app.py''])]"
  have d: "distinct (map fst demo_registry)" by (simp add: demo_registry_def)
  have bm: "best_match_by_topic ascii_lower demo_registry ?topic = Inr (Some ''flask'')"
    by (simp add: best_match_by_topic_def kw_score_def detect_of_def ascii_lower_def
        lower_char_def registry_defs and_then_def)
  have hf: "hydrate_files_from_stack_dir demo_env (with_path demo_env ''flask'' flask_template)
      = Inr (flask_template @ ?extra ''flask'')"
    by (simp add: hydrate_defs registry_defs)
  have ha: "hydrate_files_from_stack_dir demo_env (with_path demo_env ''fastapi'' fastapi_template)
      = Inr (fastapi_template @ ?extra ''fastapi'')"
    by (simp add: hydrate_defs registry_defs)
  have vf: "valid_template flask_template"
    by (simp add: valid_template_def valid_entry_def flask_template_def)
  have va: "valid_template fastapi_template"
    by (simp add: valid_template_def valid_entry_def fastapi_template_def)
  note spec = template_resolution_spec [OF d, of _ demo_env ascii_lower ?topic]
  note named_present = spec [THEN conjunct1, rule_format]
  note unnamed = spec [of None, THEN conjunct2, THEN conjunct2, THEN conjunct1]
  note used = spec [of None, THEN conjunct2, THEN conjunct2, THEN conjunct2, THEN conjunct2,
      THEN conjunct2, rule_format]
  have ua: "use_existing demo_env ''fastapi'' fastapi_template
      = Inr (UseExisting ''fastapi'' (fastapi_template @ ?extra ''fastapi''))"
    using va ha by (simp add: used)
  have uf: "use_existing demo_env ''flask'' flask_template
      = Inr (UseExisting ''flask'' (flask_template @ ?extra ''flask''))"
    using vf hf by (simp add: used)
  have "load_or_autogen_template demo_env ascii_lower demo_registry ?topic (Some ''fastapi'')
      = use_existing demo_env ''fastapi'' fastapi_template"
    by (rule named_present) (simp add: demo_registry_def)
  with ua have a: "load_or_autogen_template demo_env ascii_lower demo_registry ?topic (Some ''fastapi'')
      = Inr (UseExisting ''fastapi'' (fastapi_template @ ?extra ''fastapi''))" by simp
  from unnamed have "\<forall>b. best_match_by_topic ascii_lower demo_registry ?topic = Inr (Some b) \<longrightarrow>
      (\<exists>tpl. (b, tpl) \<in> set demo_registry \<and>
         load_or_autogen_template demo_env ascii_lower demo_registry ?topic None
           = (if b \<noteq> [] then use_existing demo_env b tpl else call_autogen demo_env ?topic None))"
    by simp
  with bm obtain tpl where t: "(''flask'', tpl) \<in> set demo_registry"
    and l: "load_or_autogen_template demo_env ascii_lower demo_registry ?topic None
      = (if ''flask'' \<noteq> [] then use_existing demo_env ''flask'' tpl
         else call_autogen demo_env ?topic None)" by blast
  from t have "tpl = flask_template" by (simp add: demo_registry_def)
  with l uf have b: "load_or_autogen_template demo_env ascii_lower demo_registry ?topic None
      = Inr (UseExisting ''flask'' (flask_template @ ?extra ''flask''))" by simp
  have "load_or_autogen_template demo_env ascii_lower demo_registry ?topic (Some ''django'')
      = use_existing demo_env ''django'' broken_template"
    by (rule named_present) (simp add: demo_registry_def)
  moreover have "use_existing demo_env ''django'' broken_template = Inl ValueError"
    by (simp add: use_existing_def hydrate_defs registry_defs validate_template_def list_under_def)
  ultimately have c: "load_or_autogen_template demo_env ascii_lower demo_registry ?topic (Some ''django'')
      = Inl ValueError" by simp
  show ?thesis using d a bm b c by (simp only: append_Cons append_Nil simp_thms)
qed

text \<open>
  The claim as stated fails where a name is given that the registry does not have: the
  keyword scoring would choose \<open>flask\<close>, a valid template, and the code calls the
  generator.
\<close>

theorem template_resolution_counterexample:
  "load_or_autogen_template demo_env ascii_lower demo_registry
      (Some ''Build a Flask API'') (Some ''rails'') = Inr (Autogenerated generated_template)
   \<and> map_of demo_registry ''rails'' = None
   \<and> best_match_by_topic ascii_lower demo_registry (Some ''Build a Flask API'')
       = Inr (Some ''flask'')
   \<and> valid_template flask_template"
  by (simp add: load_or_autogen_template_def call_autogen_def best_match_by_topic_def
      kw_score_def detect_of_def ascii_lower_def lower_char_def registry_defs and_then_def
      valid_template_def valid_entry_def)


section \<open>Properties of the path normalisation\<close>

lemma starts_with_snoc_slash:
  assumes "starts_with (c @ ''/'') (p @ ''/'')"
  shows "c = p \<or> starts_with c (p @ ''/'')"
proof -
  from assms obtain r where e: "c @ ''/'' = (p @ ''/'') @ r" by (auto simp: starts_with_iff)
  show ?thesis
  proof (cases r rule: rev_cases)
    case Nil
    with e have "c = p" by simp
    then show ?thesis ..
  next
    case (snoc r' x)
    with e have "c @ ''/'' = ((p @ ''/'') @ r') @ [x]" by simp
    then have "c = (p @ ''/'') @ r'"
      using append1_eq_conv [of c "CHR ''/''" "(p @ ''/'') @ r'" x] by simp
    then show ?thesis by (auto simp: starts_with_iff)
  qed
qed

lemma unrooted_unsafe:
  assumes "\<not> rooted c"
  shows "\<not> is_safe_relpath (c @ (if \<not> ends_with_slash c then ''/'' else []))"
proof (cases "ends_with_slash c")
  case True
  with assms show ?thesis by (simp add: is_safe_relpath_def rooted_def)
next
  case False
  have b: "\<not> starts_with (c @ ''/'') ''backend/''"
    using starts_with_snoc_slash [of c "''backend''"] assms by (auto simp: rooted_def)
  have f: "\<not> starts_with (c @ ''/'') ''frontend/''"
    using starts_with_snoc_slash [of c "''frontend''"] assms by (auto simp: rooted_def)
  show ?thesis using False b f by (simp add: is_safe_relpath_def)
qed

lemma expand_cwd_empty: "expand_cwd slug (JStr []) = Inl ValueError"
  by (simp add: expand_cwd_def and_then_def py_or_def str_replace_backslash_def
      replace_backslash_def is_safe_relpath_def ends_with_slash_def)

lemma expand_cwd_non_str:
  "\<forall>s. v \<noteq> JStr s \<Longrightarrow> \<exists>e. expand_cwd slug v = Inl e"
proof (cases "truthy v")
  case True
  assume "\<forall>s. v \<noteq> JStr s"
  with True have "expand_cwd slug v = Inl AttributeError"
    by (cases v) (simp_all add: expand_cwd_def and_then_def py_or_def str_replace_backslash_def)
  then show ?thesis by blast
next
  case False
  then have "expand_cwd slug v = expand_cwd slug (JStr [])"
    by (simp add: expand_cwd_def py_or_def)
  then show ?thesis by (simp add: expand_cwd_empty)
qed

lemma expand_cwd_iff:
  "expand_cwd slug v = Inr r \<longleftrightarrow>
     (\<exists>s. v = JStr s \<and> rooted (norm_cwd s) \<and> r = ''content/code/'' @ slug @ ''/'' @ norm_cwd s)"
proof (cases "\<exists>s. v = JStr s")
  case False
  then have "\<exists>e. expand_cwd slug v = Inl e" by (intro expand_cwd_non_str) simp
  with False show ?thesis by auto
next
  case True
  then obtain s where v: "v = JStr s" by blast
  show ?thesis
  proof (cases "rooted (norm_cwd s)")
    case True
    then have "s \<noteq> []" by (auto simp: rooted_def norm_cwd_def replace_backslash_def)
    with True v show ?thesis
      by (auto simp: expand_cwd_def and_then_def py_or_def str_replace_backslash_def
          norm_cwd_def rooted_def Let_def)
  next
    case False
    then have u: "\<not> is_safe_relpath (norm_cwd s @ (if \<not> ends_with_slash (norm_cwd s) then ''/'' else []))"
      by (rule unrooted_unsafe)
    have "expand_cwd slug (JStr s) = Inl ValueError"
    proof (cases "s = []")
      case True
      then show ?thesis by (simp add: expand_cwd_empty)
    next
      case nonempty: False
      then show ?thesis using False u
        by (simp add: expand_cwd_def and_then_def py_or_def str_replace_backslash_def Let_def
            norm_cwd_def [symmetric] rooted_def del: strip_dot_slash.simps)
    qed
    with False v show ?thesis by simp
  qed
qed

lemma map_result_Inr: "map_result f xs = Inr ys \<longleftrightarrow> list_all2 (\<lambda>x y. f x = Inr y) xs ys"
proof (induction xs arbitrary: ys)
  case Nil
  then show ?case by auto
next
  case (Cons x xs)
  show ?case
    by (cases ys) (auto simp: and_then_Inr Cons.IH list_all2_Cons1)
qed

lemma get_default_set_other:
  "k' \<noteq> k \<Longrightarrow> get_default (dict_set d k v) k' dflt = get_default d k' dflt"
  by (simp add: get_default_def has_key_set dict_get_set)

lemma get_default_set_same:
  "get_default (dict_set d k v) k dflt = v"
  by (simp add: get_default_def has_key_set dict_get_set)

lemma for_each_in_list:
  assumes "for_each_in merged key step = Inr m'"
    and "get_default merged key (JList []) = JList items"
  shows "\<exists>items'. list_all2 (\<lambda>x y. step x = Inr y) items items' \<and>
           get_default m' key (JList []) = JList items' \<and>
           (\<forall>k'. k' \<noteq> key \<longrightarrow> get_default m' k' (JList []) = get_default merged k' (JList [])) \<and>
           m' = (if has_key merged key then dict_set merged key (JList items') else merged)"
proof -
  from assms obtain items' where l: "list_all2 (\<lambda>x y. step x = Inr y) items items'"
    and m: "m' = (if has_key merged key then dict_set merged key (JList items') else merged)"
    by (auto simp: for_each_in_def and_then_Inr map_result_Inr)
  show ?thesis
  proof (cases "has_key merged key")
    case True
    with l m show ?thesis
      by (auto simp: get_default_set_same get_default_set_other)
  next
    case False
    with assms(2) have "items = []" by (simp add: get_default_def)
    with l have "items' = []" by simp
    with False l m assms(2) show ?thesis by auto
  qed
qed

lemma for_each_in_other:
  assumes "for_each_in merged key step = Inr m'"
  shows "\<forall>k'. k' \<noteq> key \<longrightarrow> get_default m' k' dflt = get_default merged k' dflt"
proof (cases "get_default merged key (JList [])")
  case (JList xs)
  with assms show ?thesis
    by (auto simp: for_each_in_def and_then_Inr get_default_set_other split: if_splits)
qed (use assms in \<open>auto simp: for_each_in_def and_then_Inr\<close>)

lemma cwd_step_has_cwd:
  assumes "cwd_step slug x = Inr y" and "item_has_cwd x"
  shows "\<exists>d d' s. x = JDict d \<and> y = JDict d' \<and> has_key d' ''cwd'' \<and>
           dict_get d ''cwd'' = JStr s \<and> rooted (norm_cwd s) \<and>
           dict_get d' ''cwd'' = JStr (''content/code/'' @ slug @ ''/'' @ norm_cwd s)"
proof -
  from assms(2) obtain d where x: "x = JDict d" and hk: "has_key d ''cwd''"
    by (cases x) auto
  from assms(1) x hk obtain c where c: "expand_cwd slug (dict_get d ''cwd'') = Inr c"
    and y: "y = JDict (dict_set d ''cwd'' (JStr c))"
    by (auto simp: and_then_Inr)
  from c obtain s where "dict_get d ''cwd'' = JStr s" "rooted (norm_cwd s)"
    "c = ''content/code/'' @ slug @ ''/'' @ norm_cwd s"
    unfolding expand_cwd_iff by blast
  with x y show ?thesis by (simp add: has_key_set dict_get_set)
qed

lemma junit_step_keeps:
  "junit_step slug d = Inr d' \<Longrightarrow> k \<noteq> ''junit_xml'' \<Longrightarrow>
   has_key d' k = has_key d k \<and> dict_get d' k = dict_get d k"
  by (auto simp: junit_step_def and_then_Inr has_key_set dict_get_set split: if_splits)

lemma install_step_keeps:
  "install_step R d = Inr d' \<Longrightarrow> k \<noteq> ''install'' \<Longrightarrow>
   has_key d' k = has_key d k \<and> dict_get d' k = dict_get d k"
  by (auto simp: install_step_def and_then_Inr has_key_set dict_get_set split: if_splits jv.splits)

lemma cmd_step_keeps:
  "cmd_step R d = Inr d' \<Longrightarrow> k \<noteq> ''cmd'' \<Longrightarrow>
   has_key d' k = has_key d k \<and> dict_get d' k = dict_get d k"
  by (auto simp: cmd_step_def and_then_Inr has_key_set dict_get_set split: if_splits)

lemma test_step_has_cwd:
  assumes "test_step R slug x = Inr y" and "item_has_cwd x"
  shows "\<exists>d d' s. x = JDict d \<and> y = JDict d' \<and> has_key d' ''cwd'' \<and>
           dict_get d ''cwd'' = JStr s \<and> rooted (norm_cwd s) \<and>
           dict_get d' ''cwd'' = JStr (''content/code/'' @ slug @ ''/'' @ norm_cwd s)"
proof -
  from assms(1) obtain t1 where t1: "cwd_step slug x = Inr t1"
    and r: "(case t1 of JDict d \<Rightarrow> and_then (junit_step slug d) (\<lambda>d2.
                    and_then (install_step R d2) (\<lambda>d3.
                    and_then (cmd_step R d3) (\<lambda>d4. Inr (JDict d4))))
       | _ \<Rightarrow> Inl AttributeError) = Inr y"
    by (auto simp: test_step_def and_then_Inr)
  from cwd_step_has_cwd [OF t1 assms(2)] obtain d d1 s where h: "x = JDict d" "t1 = JDict d1"
    "has_key d1 ''cwd''" "dict_get d ''cwd'' = JStr s" "rooted (norm_cwd s)"
    "dict_get d1 ''cwd'' = JStr (''content/code/'' @ slug @ ''/'' @ norm_cwd s)"
    by blast
  from r h(2) obtain d2 d3 d4 where j: "junit_step slug d1 = Inr d2"
    and i: "install_step R d2 = Inr d3" and c: "cmd_step R d3 = Inr d4" and y: "y = JDict d4"
    by (auto simp: and_then_Inr)
  have "has_key d4 ''cwd'' \<and> dict_get d4 ''cwd'' = dict_get d1 ''cwd''"
    using junit_step_keeps [OF j, of "''cwd''"] install_step_keeps [OF i, of "''cwd''"]
      cmd_step_keeps [OF c, of "''cwd''"] h(3) by simp
  with h y show ?thesis by simp
qed

lemma expand_project_paths_items:
  assumes "expand_project_paths R merged slug = Inr out"
    and "key = ''services'' \<or> key = ''tests''"
    and "get_default merged key (JList []) = JList items"
  shows "\<exists>items'. get_default out key (JList []) = JList items' \<and>
           list_all2 (\<lambda>x y. item_has_cwd x \<longrightarrow>
             (\<exists>d d' s. x = JDict d \<and> y = JDict d' \<and> has_key d' ''cwd'' \<and>
               dict_get d ''cwd'' = JStr s \<and> rooted (norm_cwd s) \<and>
               dict_get d' ''cwd'' = JStr (''content/code/'' @ slug @ ''/'' @ norm_cwd s)))
             items items'"
proof -
  from assms(1) obtain m1 where s1: "for_each_in merged ''services'' (cwd_step slug) = Inr m1"
    and s2: "for_each_in m1 ''tests'' (test_step R slug) = Inr out"
    by (auto simp: expand_project_paths_def and_then_Inr)
  from assms(2) show ?thesis
  proof
    assume k: "key = ''services''"
    from for_each_in_list [OF s1 assms(3) [unfolded k]] obtain items' where
      l: "list_all2 (\<lambda>x y. cwd_step slug x = Inr y) items items'"
      and g: "get_default m1 ''services'' (JList []) = JList items'" by blast
    from for_each_in_other [OF s2] g
    have "get_default out ''services'' (JList []) = JList items'" by simp
    moreover have "list_all2 (\<lambda>x y. item_has_cwd x \<longrightarrow>
             (\<exists>d d' s. x = JDict d \<and> y = JDict d' \<and> has_key d' ''cwd'' \<and>
               dict_get d ''cwd'' = JStr s \<and> rooted (norm_cwd s) \<and>
               dict_get d' ''cwd'' = JStr (''content/code/'' @ slug @ ''/'' @ norm_cwd s)))
             items items'"
      using l by (rule list_all2_mono) (auto dest: cwd_step_has_cwd)
    ultimately show ?thesis using k by blast
  next
    assume k: "key = ''tests''"
    from for_each_in_other [OF s1] assms(3) k
    have "get_default m1 ''tests'' (JList []) = JList items" by simp
    from for_each_in_list [OF s2 this] obtain items' where
      l: "list_all2 (\<lambda>x y. test_step R slug x = Inr y) items items'"
      and g: "get_default out ''tests'' (JList []) = JList items'" by blast
    have "list_all2 (\<lambda>x y. item_has_cwd x \<longrightarrow>
             (\<exists>d d' s. x = JDict d \<and> y = JDict d' \<and> has_key d' ''cwd'' \<and>
               dict_get d ''cwd'' = JStr s \<and> rooted (norm_cwd s) \<and>
               dict_get d' ''cwd'' = JStr (''content/code/'' @ slug @ ''/'' @ norm_cwd s)))
             items items'"
      using l by (rule list_all2_mono) (auto dest: test_step_has_cwd)
    with g show ?thesis using k by blast
  qed
qed

lemma expanded_not_rooted: "\<not> rooted (norm_cwd (''content/code/'' @ x))"
  by (simp add: rooted_def norm_cwd_def replace_backslash_def)


lemma for_each_in_has_key:
  assumes "for_each_in merged key step = Inr m'"
  shows "has_key m' k = has_key merged k"
proof (cases "get_default merged key (JList [])")
  case (JList xs)
  with assms show ?thesis
    by (auto simp: for_each_in_def and_then_Inr has_key_set split: if_splits)
qed (use assms in \<open>auto simp: for_each_in_def and_then_Inr\<close>)

lemma cwd_step_no_cwd: "cwd_step slug x = Inr y \<Longrightarrow> \<not> item_has_cwd x \<Longrightarrow> y = x"
  by (cases x) (auto split: if_splits)

lemma list_all2_same_fix:
  "list_all2 (\<lambda>x y. f x = Inr y) xs ys \<Longrightarrow> (\<And>x y. x \<in> set xs \<Longrightarrow> f x = Inr y \<Longrightarrow> g y = Inr y)
   \<Longrightarrow> map_result g ys = Inr ys"
proof (induction xs ys rule: list_all2_induct)
  case Nil
  then show ?case by simp
next
  case (Cons x xs y ys)
  have gy: "g y = Inr y" using Cons.hyps(1) Cons.prems [of x y] by simp
  have "map_result g ys = Inr ys"
  proof (rule Cons.IH)
    fix x' y' assume "x' \<in> set xs" and "f x' = Inr y'"
    then show "g y' = Inr y'" using Cons.prems [of x' y'] by simp
  qed
  with gy show ?case by (simp add: and_then_def)
qed

lemma list_all2_eq_fix:
  "list_all2 (\<lambda>x y. f x = Inr y) xs ys \<Longrightarrow> (\<And>x y. x \<in> set xs \<Longrightarrow> f x = Inr y \<Longrightarrow> y = x)
   \<Longrightarrow> ys = xs"
  by (induction xs ys rule: list_all2_induct) auto

lemma str_list_fix: "str_list R x = Inr y \<Longrightarrow> str_list R y = Inr y"
  by (auto simp: str_list_def and_then_Inr py_str_def comp_def)

lemma starts_with_expanded: "starts_with (replace_backslash (''content/code/'' @ x)) ''content/''"
  by (simp add: replace_backslash_def)

lemma junit_step_fix:
  assumes "junit_step slug d = Inr d2"
    and "dict_get e ''type'' = dict_get d2 ''type''"
    and "dict_get e ''junit_xml'' = dict_get d2 ''junit_xml''"
  shows "junit_step slug e = Inr e"
proof (cases "dict_get d ''type'' = JStr ''junit'' \<and> truthy (dict_get d ''junit_xml'')")
  case False
  with assms(1) have "d2 = d" by (simp add: junit_step_def)
  with False assms(2,3) show ?thesis by (auto simp: junit_step_def)
next
  case True
  with assms(1) obtain j where j: "str_replace_backslash (dict_get d ''junit_xml'') = Inr j"
    and d2: "d2 = (if \<not> starts_with j ''content/''
                  then dict_set d ''junit_xml'' (JStr (''content/code/'' @ slug @ ''/'' @ j))
                  else d)"
    by (auto simp: junit_step_def and_then_Inr)
  from j obtain s where s: "dict_get d ''junit_xml'' = JStr s" "j = replace_backslash s"
    by (auto simp: str_replace_backslash_def split: jv.splits)
  show ?thesis
  proof (cases "starts_with j ''content/''")
    case True
    with d2 have dd: "d2 = d" by simp
    have sw: "starts_with (replace_backslash s) ''content/''" using True s(2) by simp
    have ty: "dict_get e ''type'' = JStr ''junit''"
      and jx: "dict_get e ''junit_xml'' = JStr s" and tr: "truthy (JStr s)"
      using \<open>dict_get d ''type'' = JStr ''junit'' \<and> truthy (dict_get d ''junit_xml'')\<close>
        assms(2,3) s(1) dd by simp_all
    show ?thesis using sw tr
      by (simp add: junit_step_def and_then_def str_replace_backslash_def ty jx)
  next
    case False
    with d2 have "d2 = dict_set d ''junit_xml'' (JStr (''content/code/'' @ slug @ ''/'' @ j))"
      by simp
    then have "dict_get d2 ''type'' = JStr ''junit''"
      and "dict_get d2 ''junit_xml'' = JStr (''content/code/'' @ slug @ ''/'' @ j)"
      using True by (simp_all add: dict_get_set)
    with assms(2,3) show ?thesis
      using starts_with_expanded [of "slug @ ''/'' @ j"]
      by (simp add: junit_step_def and_then_def str_replace_backslash_def)
  qed
qed

lemma install_step_fix:
  assumes "install_step R d = Inr d3"
    and "has_key e ''install'' = has_key d3 ''install''"
    and "dict_get e ''install'' = dict_get d3 ''install''"
  shows "install_step R e = Inr e"
proof (cases "has_key d ''install''")
  case False
  with assms show ?thesis by (simp add: install_step_def)
next
  case True
  show ?thesis
  proof (cases "dict_get d ''install''")
    case (JList cmds)
    with True assms(1) obtain cs where m: "map_result (str_list R) cmds = Inr cs"
      and d3: "d3 = dict_set d ''install'' (JList cs)"
      by (auto simp: install_step_def and_then_Inr)
    from m have "list_all2 (\<lambda>x y. str_list R x = Inr y) cmds cs" by (simp add: map_result_Inr)
    then have csfix: "map_result (str_list R) cs = Inr cs"
      by (rule list_all2_same_fix) (rule str_list_fix)
    from d3 assms(2,3) have hk: "has_key e ''install''" and dg: "dict_get e ''install'' = JList cs"
      by (simp_all add: has_key_set dict_get_set)
    show ?thesis using hk dg csfix
      by (simp add: install_step_def and_then_def dict_set_same)
  qed (use True assms in \<open>simp_all add: install_step_def\<close>)
qed

lemma cmd_step_fix:
  assumes "cmd_step R d = Inr d4"
  shows "cmd_step R d4 = Inr d4"
proof (cases "has_key d ''cmd''")
  case False
  with assms show ?thesis by (simp add: cmd_step_def)
next
  case True
  with assms obtain c where c: "str_list R (dict_get d ''cmd'') = Inr c"
    and d4: "d4 = dict_set d ''cmd'' c"
    by (auto simp: cmd_step_def and_then_Inr)
  from c have "str_list R c = Inr c" by (rule str_list_fix)
  with d4 show ?thesis
    by (simp add: cmd_step_def and_then_def has_key_set dict_get_set dict_set_same)
qed

lemma test_step_fix:
  assumes "test_step R slug x = Inr y" and "\<not> item_has_cwd x"
  shows "test_step R slug y = Inr y"
proof -
  from assms(1) obtain t1 where t1: "cwd_step slug x = Inr t1"
    and r: "(case t1 of JDict d \<Rightarrow> and_then (junit_step slug d) (\<lambda>d2.
                    and_then (install_step R d2) (\<lambda>d3.
                    and_then (cmd_step R d3) (\<lambda>d4. Inr (JDict d4))))
       | _ \<Rightarrow> Inl AttributeError) = Inr y"
    by (auto simp: test_step_def and_then_Inr)
  from cwd_step_no_cwd [OF t1 assms(2)] have tx: "t1 = x" .
  from r tx obtain d where x: "x = JDict d" by (cases x) auto
  from assms(2) x have nk: "\<not> has_key d ''cwd''" by simp
  from r tx x obtain d2 d3 d4 where j: "junit_step slug d = Inr d2"
    and i: "install_step R d2 = Inr d3" and c: "cmd_step R d3 = Inr d4" and y: "y = JDict d4"
    by (auto simp: and_then_Inr)
  have nk4: "\<not> has_key d4 ''cwd''"
    using junit_step_keeps [OF j, of "''cwd''"] install_step_keeps [OF i, of "''cwd''"]
      cmd_step_keeps [OF c, of "''cwd''"] nk by simp
  have j4: "junit_step slug d4 = Inr d4"
  proof (rule junit_step_fix [OF j])
    show "dict_get d4 ''type'' = dict_get d2 ''type''"
      using install_step_keeps [OF i, of "''type''"] cmd_step_keeps [OF c, of "''type''"] by simp
    show "dict_get d4 ''junit_xml'' = dict_get d2 ''junit_xml''"
      using install_step_keeps [OF i, of "''junit_xml''"] cmd_step_keeps [OF c, of "''junit_xml''"]
      by simp
  qed
  have i4: "install_step R d4 = Inr d4"
  proof (rule install_step_fix [OF i])
    show "has_key d4 ''install'' = has_key d3 ''install''"
      using cmd_step_keeps [OF c, of "''install''"] by simp
    show "dict_get d4 ''install'' = dict_get d3 ''install''"
      using cmd_step_keeps [OF c, of "''install''"] by simp
  qed
  have c4: "cmd_step R d4 = Inr d4" using c by (rule cmd_step_fix)
  show ?thesis using y nk4 j4 i4 c4 by (simp add: test_step_def and_then_def)
qed

lemma not_declares_cwd:
  "\<not> declares_cwd merged key \<Longrightarrow> get_default merged key (JList []) = JList items \<Longrightarrow>
   x \<in> set items \<Longrightarrow> \<not> item_has_cwd x"
  by (auto simp: declares_cwd_def list_ex_iff)

lemma for_each_in_fix:
  assumes f: "for_each_in merged key step = Inr m'"
    and nd: "\<not> declares_cwd merged key"
    and stepfix: "\<And>x y. \<not> item_has_cwd x \<Longrightarrow> step x = Inr y \<Longrightarrow> step y = Inr y"
  shows "for_each_in m' key step = Inr m'"
proof (cases "get_default merged key (JList [])")
  case (JList items)
  from for_each_in_list [OF f JList] obtain items' where
    l: "list_all2 (\<lambda>x y. step x = Inr y) items items'"
    and g: "get_default m' key (JList []) = JList items'"
    and m: "m' = (if has_key merged key then dict_set merged key (JList items') else merged)"
    by blast
  have mr: "map_result step items' = Inr items'"
    using l
  proof (rule list_all2_same_fix)
    fix x y assume "x \<in> set items" and "step x = Inr y"
    with not_declares_cwd [OF nd JList] stepfix show "step y = Inr y" by blast
  qed
  have "(if has_key m' key then dict_set m' key (JList items') else m') = m'"
  proof (cases "has_key m' key")
    case True
    with g have "dict_get m' key = JList items'" by (simp add: get_default_def)
    with True show ?thesis by (simp add: dict_set_same)
  qed simp
  with g mr show ?thesis by (simp add: for_each_in_def and_then_def)
next
  case JNull
  with f have "m' = merged" by (auto simp: for_each_in_def and_then_Inr)
  with f show ?thesis by simp
next
  case (JBool b)
  with f have "m' = merged" by (auto simp: for_each_in_def and_then_Inr)
  with f show ?thesis by simp
next
  case (JInt n)
  with f have "m' = merged" by (auto simp: for_each_in_def and_then_Inr)
  with f show ?thesis by simp
next
  case (JStr s)
  with f have "m' = merged" by (auto simp: for_each_in_def and_then_Inr)
  with f show ?thesis by simp
next
  case (JDict d)
  with f have "m' = merged" by (auto simp: for_each_in_def and_then_Inr)
  with f show ?thesis by simp
qed

lemma for_each_in_cwd_id:
  assumes f: "for_each_in merged key (cwd_step slug) = Inr m'"
    and nd: "\<not> declares_cwd merged key"
  shows "m' = merged"
proof (cases "get_default merged key (JList [])")
  case (JList items)
  from for_each_in_list [OF f JList] obtain items' where
    l: "list_all2 (\<lambda>x y. cwd_step slug x = Inr y) items items'"
    and m: "m' = (if has_key merged key then dict_set merged key (JList items') else merged)"
    by blast
  have "items' = items" using l
  proof (rule list_all2_eq_fix)
    fix x y assume "x \<in> set items" and "cwd_step slug x = Inr y"
    with not_declares_cwd [OF nd JList] show "y = x" by (blast dest: cwd_step_no_cwd)
  qed
  with m JList show ?thesis by (auto simp: get_default_def dict_set_same)
qed (use f in \<open>auto simp: for_each_in_def and_then_Inr\<close>)

lemma expand_project_paths_fix:
  assumes e: "expand_project_paths R merged slug = Inr out"
    and ns: "\<not> declares_cwd merged ''services''" and nt: "\<not> declares_cwd merged ''tests''"
  shows "expand_project_paths R out slug = Inr out"
proof -
  from e obtain m1 where s1: "for_each_in merged ''services'' (cwd_step slug) = Inr m1"
    and s2: "for_each_in m1 ''tests'' (test_step R slug) = Inr out"
    by (auto simp: expand_project_paths_def and_then_Inr)
  from for_each_in_cwd_id [OF s1 ns] have m1: "m1 = merged" .
  have t2: "for_each_in out ''tests'' (test_step R slug) = Inr out"
    using s2 [unfolded m1] nt by (rule for_each_in_fix) (rule test_step_fix)
  have "get_default out ''services'' (JList []) = get_default merged ''services'' (JList [])"
    using for_each_in_other [OF s2] m1 by simp
  then have ns': "\<not> declares_cwd out ''services''" using ns by (simp add: declares_cwd_def)
  have g: "get_default out ''services'' (JList []) = get_default merged ''services'' (JList [])"
    by fact
  have hk: "has_key out ''services'' = has_key merged ''services''"
    using for_each_in_has_key [OF s2] m1 by simp
  from s1 m1 obtain items items' where
    p: "py_iter (get_default merged ''services'' (JList [])) = Inr items"
    and mr: "map_result (cwd_step slug) items = Inr items'"
    by (auto simp: for_each_in_def and_then_Inr)
  have s_out: "\<exists>m. for_each_in out ''services'' (cwd_step slug) = Inr m"
    using p mr g by (simp add: for_each_in_def and_then_def)
  then obtain m where m: "for_each_in out ''services'' (cwd_step slug) = Inr m" by blast
  from for_each_in_cwd_id [OF m ns'] have "m = out" .
  with m t2 show ?thesis by (simp add: expand_project_paths_def and_then_def)
qed


lemma list_all2_pick:
  "list_all2 P xs ys \<Longrightarrow> x \<in> set xs \<Longrightarrow> \<exists>y\<in>set ys. P x y"
  by (induction xs ys rule: list_all2_induct) auto

lemma expand_project_paths_again:
  assumes e: "expand_project_paths R merged slug = Inr out"
    and k: "key = ''services'' \<or> key = ''tests''"
    and dc: "declares_cwd merged key"
  shows "\<exists>e. expand_project_paths R out slug = Inl e"
proof (cases "expand_project_paths R out slug")
  case (Inl e)
  then show ?thesis by blast
next
  case (Inr out2)
  from dc obtain items x where g: "get_default merged key (JList []) = JList items"
    and x: "x \<in> set items" "item_has_cwd x"
    by (auto simp: declares_cwd_def list_ex_iff split: jv.splits)
  from expand_project_paths_items [OF e k g] obtain items' where
    g': "get_default out key (JList []) = JList items'"
    and l: "list_all2 (\<lambda>x y. item_has_cwd x \<longrightarrow>
             (\<exists>d d' s. x = JDict d \<and> y = JDict d' \<and> has_key d' ''cwd'' \<and>
               dict_get d ''cwd'' = JStr s \<and> rooted (norm_cwd s) \<and>
               dict_get d' ''cwd'' = JStr (''content/code/'' @ slug @ ''/'' @ norm_cwd s)))
             items items'" by blast
  from list_all2_pick [OF l x(1)] x(2) obtain y d' s where y: "y \<in> set items'" "y = JDict d'"
    "has_key d' ''cwd''" "dict_get d' ''cwd'' = JStr (''content/code/'' @ slug @ ''/'' @ norm_cwd s)"
    by blast
  from expand_project_paths_items [OF Inr k g'] obtain items2 where
    l2: "list_all2 (\<lambda>x y. item_has_cwd x \<longrightarrow>
             (\<exists>d d' s. x = JDict d \<and> y = JDict d' \<and> has_key d' ''cwd'' \<and>
               dict_get d ''cwd'' = JStr s \<and> rooted (norm_cwd s) \<and>
               dict_get d' ''cwd'' = JStr (''content/code/'' @ slug @ ''/'' @ norm_cwd s)))
             items' items2" by blast
  from y(2,3) have "item_has_cwd y" by simp
  with list_all2_pick [OF l2 y(1)] obtain d s' where "y = JDict d" "dict_get d ''cwd'' = JStr s'"
    "rooted (norm_cwd s')" by blast
  with y(2,4) have "rooted (norm_cwd (''content/code/'' @ slug @ ''/'' @ norm_cwd s))" by simp
  with expanded_not_rooted show ?thesis by blast
qed

text \<open>
  Claim C1, as amended. A cwd is accepted exactly when it is a string that, after
  backslashes are turned into slashes and leading \<open>./\<close> are stripped, is \<open>backend\<close> or
  \<open>frontend\<close> or begins with \<open>backend/\<close> or \<open>frontend/\<close>; every other cwd raises. In a
  config that is accepted every service and test entry with a cwd has such a cwd, and
  the output holds \<open>content/code/{slug}/\<close> followed by the normalised cwd in its place.
  The expansion is not idempotent on a cwd: applied to its own output it raises
  whenever some service or test entry declares a cwd, because the expanded cwd begins
  with \<open>content/\<close>. Where no entry declares a cwd, the second application returns the
  first one's output unchanged (the \<open>junit_xml\<close> rewriting and the coercion of the
  command vectors are idempotent).
\<close>

theorem expand_project_paths_spec:
  assumes "expand_project_paths R merged slug = Inr out"
  shows "(\<forall>key items. (key = ''services'' \<or> key = ''tests'') \<and>
            get_default merged key (JList []) = JList items \<longrightarrow>
            (\<exists>items'. get_default out key (JList []) = JList items' \<and>
               list_all2 (\<lambda>x y. item_has_cwd x \<longrightarrow>
                 (\<exists>d d' s. x = JDict d \<and> y = JDict d' \<and> has_key d' ''cwd'' \<and>
                    dict_get d ''cwd'' = JStr s \<and> rooted (norm_cwd s) \<and>
                    dict_get d' ''cwd'' = JStr (''content/code/'' @ slug @ ''/'' @ norm_cwd s)))
               items items'))
       \<and> (\<forall>v r. expand_cwd slug v = Inr r \<longleftrightarrow>
            (\<exists>s. v = JStr s \<and> rooted (norm_cwd s) \<and>
                 r = ''content/code/'' @ slug @ ''/'' @ norm_cwd s))
       \<and> (declares_cwd merged ''services'' \<or> declares_cwd merged ''tests'' \<longrightarrow>
            (\<exists>e. expand_project_paths R out slug = Inl e))
       \<and> (\<not> declares_cwd merged ''services'' \<and> \<not> declares_cwd merged ''tests'' \<longrightarrow>
            expand_project_paths R out slug = Inr out)"
proof (intro conjI allI impI)
  fix key items
  assume "(key = ''services'' \<or> key = ''tests'') \<and> get_default merged key (JList []) = JList items"
  then show "\<exists>items'. get_default out key (JList []) = JList items' \<and>
               list_all2 (\<lambda>x y. item_has_cwd x \<longrightarrow>
                 (\<exists>d d' s. x = JDict d \<and> y = JDict d' \<and> has_key d' ''cwd'' \<and>
                    dict_get d ''cwd'' = JStr s \<and> rooted (norm_cwd s) \<and>
                    dict_get d' ''cwd'' = JStr (''content/code/'' @ slug @ ''/'' @ norm_cwd s)))
               items items'"
    using expand_project_paths_items [OF assms] by blast
next
  fix v r
  show "expand_cwd slug v = Inr r \<longleftrightarrow>
            (\<exists>s. v = JStr s \<and> rooted (norm_cwd s) \<and>
                 r = ''content/code/'' @ slug @ ''/'' @ norm_cwd s)"
    by (rule expand_cwd_iff)
next
  assume "declares_cwd merged ''services'' \<or> declares_cwd merged ''tests''"
  then show "\<exists>e. expand_project_paths R out slug = Inl e"
    using expand_project_paths_again [OF assms] by blast
next
  assume "\<not> declares_cwd merged ''services'' \<and> \<not> declares_cwd merged ''tests''"
  then show "expand_project_paths R out slug = Inr out"
    using expand_project_paths_fix [OF assms] by blast
qed

theorem expand_project_paths_spec_witness:
  "expand_project_paths (\<lambda>v. ''?'')
      [(''services'', JList [JDict [(''name'', JStr ''be''), (''cwd'', JStr ''./backend'')]]),
       (''tests'', JList [JDict [(''name'', JStr ''t''), (''type'', JStr ''junit''),
                               (''junit_xml'', JStr ''backend/r.xml''),
                               (''cmd'', JList [JStr ''pytest''])]])] ''demo''
    = Inr [(''services'', JList [JDict [(''name'', JStr ''be''),
                                        (''cwd'', JStr ''content/code/demo/backend'')]]),
           (''tests'', JList [JDict [(''name'', JStr ''t''), (''type'', JStr ''junit''),
                                   (''junit_xml'', JStr ''content/code/demo/backend/r.xml''),
                                   (''cmd'', JList [JStr ''pytest''])]])]
   \<and> declares_cwd
        [(''services'', JList [JDict [(''name'', JStr ''be''), (''cwd'', JStr ''./backend'')]]),
         (''tests'', JList [JDict [(''name'', JStr ''t''), (''type'', JStr ''junit''),
                               (''junit_xml'', JStr ''backend/r.xml''),
                               (''cmd'', JList [JStr ''pytest''])]])] ''services''
   \<and> (\<exists>e. expand_project_paths (\<lambda>v. ''?'')
         [(''services'', JList [JDict [(''name'', JStr ''be''),
                                        (''cwd'', JStr ''content/code/demo/backend'')]]),
           (''tests'', JList [JDict [(''name'', JStr ''t''), (''type'', JStr ''junit''),
                                   (''junit_xml'', JStr ''content/code/demo/backend/r.xml''),
                                   (''cmd'', JList [JStr ''pytest''])]])] ''demo'' = Inl e)
   \<and> expand_project_paths (\<lambda>v. ''?'')
        [(''tests'', JList [JDict [(''name'', JStr ''t''), (''type'', JStr ''junit''),
                               (''junit_xml'', JStr ''content/code/demo/backend/r.xml''),
                               (''cmd'', JList [JStr ''pytest''])]])] ''demo''
      = Inr [(''tests'', JList [JDict [(''name'', JStr ''t''), (''type'', JStr ''junit''),
                               (''junit_xml'', JStr ''content/code/demo/backend/r.xml''),
                               (''cmd'', JList [JStr ''pytest''])]])]"
proof -
  let ?R = "\<lambda>v::jv. ''?''"
  let ?t = "JDict [(''name'', JStr ''t''), (''type'', JStr ''junit''),
                   (''junit_xml'', JStr ''backend/r.xml''), (''cmd'', JList [JStr ''pytest''])]"
  let ?t' = "JDict [(''name'', JStr ''t''), (''type'', JStr ''junit''),
                    (''junit_xml'', JStr ''content/code/demo/backend/r.xml''),
                    (''cmd'', JList [JStr ''pytest''])]"
  let ?m = "[(''services'', JList [JDict [(''name'', JStr ''be''), (''cwd'', JStr ''./backend'')]]),
             (''tests'', JList [?t])]"
  let ?out = "[(''services'', JList [JDict [(''name'', JStr ''be''),
                                        (''cwd'', JStr ''content/code/demo/backend'')]]),
               (''tests'', JList [?t'])]"
  have r: "expand_project_paths ?R ?m ''demo'' = Inr ?out"
    by (simp add: expand_project_paths_def for_each_in_def get_default_def and_then_def
        expand_cwd_def py_or_def str_replace_backslash_def replace_backslash_def is_safe_relpath_def
        test_step_def junit_step_def install_step_def cmd_step_def str_list_def py_str_def)
  have dc: "declares_cwd ?m ''services''"
    by (simp add: declares_cwd_def get_default_def)
  have again: "\<exists>e. expand_project_paths ?R ?out ''demo'' = Inl e"
    using expand_project_paths_spec [OF r] dc by blast
  have r2: "expand_project_paths ?R [(''tests'', JList [?t])] ''demo'' = Inr [(''tests'', JList [?t'])]"
    by (simp add: expand_project_paths_def for_each_in_def get_default_def and_then_def
        str_replace_backslash_def replace_backslash_def
        test_step_def junit_step_def install_step_def cmd_step_def str_list_def py_str_def)
  have nd: "\<not> declares_cwd [(''tests'', JList [?t])] ''services'' \<and>
            \<not> declares_cwd [(''tests'', JList [?t])] ''tests''"
    by (simp add: declares_cwd_def get_default_def)
  have idem: "expand_project_paths ?R [(''tests'', JList [?t'])] ''demo'' = Inr [(''tests'', JList [?t'])]"
    using expand_project_paths_spec [OF r2] nd by blast
  show ?thesis using r dc again idem by (intro conjI)
qed

text \<open>
  The claim as stated fails on the smallest accepted config with a cwd: the second
  application raises \<open>ValueError\<close> instead of returning the same output.
\<close>

theorem expand_project_paths_counterexample:
  "expand_project_paths (\<lambda>v. ''?'')
      [(''services'', JList [JDict [(''name'', JStr ''be''), (''cwd'', JStr ''backend/'')]])] ''demo''
    = Inr [(''services'', JList [JDict [(''name'', JStr ''be''),
                                        (''cwd'', JStr ''content/code/demo/backend/'')]])]
   \<and> expand_project_paths (\<lambda>v. ''?'')
        [(''services'', JList [JDict [(''name'', JStr ''be''),
                                          (''cwd'', JStr ''content/code/demo/backend/'')]])] ''demo''
      = Inl ValueError"
  by (simp add: expand_project_paths_def for_each_in_def get_default_def and_then_def
      expand_cwd_def py_or_def str_replace_backslash_def replace_backslash_def is_safe_relpath_def
      ends_with_slash_def)


section \<open>Properties of the orchestrator\<close>


lemma wait_http_trace:
  "wait_http w i expect timeout_sec elapsed_ms tries tr = (r, tr') \<Longrightarrow>
   \<exists>hs. tr' = tr @ hs \<and> (\<forall>e\<in>set hs. \<exists>k. e = HttpGet i k)"
proof (induction w i expect timeout_sec elapsed_ms tries tr rule: wait_http.induct)
  case (1 w i expect timeout_sec elapsed_ms tries tr)
  show ?case
  proof (cases "int elapsed_ms < timeout_sec * 1000")
    case False
    with "1.prems" show ?thesis by simp
  next
    case True
    let ?tr1 = "tr @ [HttpGet i (Suc tries)]"
    let ?next = "wait_http w i expect timeout_sec
                   (elapsed_ms + probe_ms w i (Suc tries) + 400) (Suc tries) ?tr1"
    have ext: "\<And>hs. tr' = ?tr1 @ hs \<and> (\<forall>e\<in>set hs. \<exists>k. e = HttpGet i k) \<Longrightarrow>
          \<exists>hs. tr' = tr @ hs \<and> (\<forall>e\<in>set hs. \<exists>k. e = HttpGet i k)"
    proof -
      fix hs assume h: "tr' = ?tr1 @ hs \<and> (\<forall>e\<in>set hs. \<exists>k. e = HttpGet i k)"
      then have "tr' = tr @ (HttpGet i (Suc tries) # hs) \<and>
                 (\<forall>e\<in>set (HttpGet i (Suc tries) # hs). \<exists>k. e = HttpGet i k)" by simp
      then show "\<exists>hs. tr' = tr @ hs \<and> (\<forall>e\<in>set hs. \<exists>k. e = HttpGet i k)" by blast
    qed
    show ?thesis
    proof (cases "probe w i (Suc tries)")
      case (Body body)
      show ?thesis
      proof (cases "case expect of None \<Rightarrow> True | Some e \<Rightarrow> is_substr e body")
        case m: True
        with "1.prems" True Body have "tr' = ?tr1 @ []" by simp
        then show ?thesis using ext [of "[]"] by simp
      next
        case m: False
        with "1.prems" True Body have "?next = (r, tr')" by simp
        from "1.IH"(1) [OF True Body m this] show ?thesis using ext by blast
      qed
    next
      case URLError
      with "1.prems" True have "?next = (r, tr')" by simp
      from "1.IH"(2) [OF True URLError this] show ?thesis using ext by blast
    next
      case ProbeRaises
      with "1.prems" True have "tr' = ?tr1 @ []" by simp
      then show ?thesis using ext [of "[]"] by simp
    qed
  qed
qed

lemma wait_http_nonpositive:
  "timeout_sec \<le> 0 \<Longrightarrow> wait_http w i expect timeout_sec 0 0 tr = (Inr False, tr)"
  by simp

lemma health_of_trace:
  "health_of w mw svc i tr = (r, tr') \<Longrightarrow>
   \<exists>hs. tr' = tr @ hs \<and> (\<forall>e\<in>set hs. \<exists>k. e = HttpGet i k)"
  by (cases "url_declared svc") (auto simp: health_of_def dest: wait_http_trace simp del: wait_http.simps)

lemma start_loop_inv:
  "start_loop w mw svcs i procs svc_meta tr = (Inr (meta', procs', ok), tr') \<Longrightarrow>
   \<exists>new evs. meta' = svc_meta @ new \<and> procs' = procs @ [i..<i + length new] \<and>
      length new \<le> length svcs \<and> map se_name new = map svc_name (take (length new) svcs) \<and>
      filter is_spawn evs = map Spawn [i..<i + length new] \<and>
      (\<forall>e\<in>set evs. is_spawn e \<or> is_http e) \<and>
      (if ok then length new = length svcs \<and> (\<forall>m\<in>set new. se_healthy m) \<and> tr' = tr @ evs
       else new \<noteq> [] \<and> \<not> se_healthy (last new) \<and> (\<forall>m\<in>set (butlast new). se_healthy m) \<and>
            tr' = stop_services w procs' (tr @ evs))"
proof (induction svcs arbitrary: i procs svc_meta tr)
  case Nil
  then have "meta' = svc_meta @ [] \<and> procs' = procs @ [i..<i + length ([]::svc_entry list)] \<and>
      ok \<and> tr' = tr @ []" by simp
  then show ?case by (intro exI [of _ "[]"]) simp
next
  case (Cons svc rest)
  from Cons.prems obtain cmd where cmd: "to_cmd_list (svc_start svc) = Inr cmd"
    by (cases "to_cmd_list (svc_start svc)") auto
  from Cons.prems cmd have sp: "spawn_ok w i"
    by (auto split: if_splits)
  obtain hr tr2 where h: "health_of w mw svc i (tr @ [Spawn i]) = (hr, tr2)"
    by (cases "health_of w mw svc i (tr @ [Spawn i])")
  from Cons.prems cmd sp h obtain healthy where hr: "hr = Inr healthy"
    by (cases hr) auto
  from health_of_trace [OF h] obtain hs where tr2: "tr2 = tr @ [Spawn i] @ hs"
    and hs: "\<forall>e\<in>set hs. \<exists>k. e = HttpGet i k" by auto
  have hs_http: "\<forall>e\<in>set hs. is_http e" using hs by auto
  have hs_nospawn: "filter is_spawn hs = []" using hs by (auto simp: filter_empty_conv)
  show ?case
  proof (cases healthy)
    case False
    with Cons.prems cmd sp h hr have r: "meta' = svc_meta @ [
        \<lparr>se_name = svc_name svc, se_healthy = False, se_duration = measured w i\<rparr>]"
      "procs' = procs @ [i]" "\<not> ok" "tr' = stop_services w (procs @ [i]) tr2"
      by auto
    show ?thesis
      apply (rule exI [of _ "[
          \<lparr>se_name = svc_name svc, se_healthy = False, se_duration = measured w i\<rparr>]"])
      apply (rule exI [of _ "Spawn i # hs"])
      using r tr2 hs_http hs_nospawn by simp
  next
    case True
    with Cons.prems cmd sp h hr have
      "start_loop w mw rest (Suc i) (procs @ [i]) (svc_meta @ [
          \<lparr>se_name = svc_name svc, se_healthy = True, se_duration = measured w i\<rparr>]) tr2
        = (Inr (meta', procs', ok), tr')"
      by auto
    from Cons.IH [OF this] obtain new evs where ih:
      "meta' = (svc_meta @ [
          \<lparr>se_name = svc_name svc, se_healthy = True, se_duration = measured w i\<rparr>]) @ new"
      "procs' = (procs @ [i]) @ [Suc i..<Suc i + length new]"
      "length new \<le> length rest" "map se_name new = map svc_name (take (length new) rest)"
      "filter is_spawn evs = map Spawn [Suc i..<Suc i + length new]"
      "\<forall>e\<in>set evs. is_spawn e \<or> is_http e"
      "if ok then length new = length rest \<and> (\<forall>m\<in>set new. se_healthy m) \<and> tr' = tr2 @ evs
       else new \<noteq> [] \<and> \<not> se_healthy (last new) \<and> (\<forall>m\<in>set (butlast new). se_healthy m) \<and>
            tr' = stop_services w procs' (tr2 @ evs)"
      by blast
    have upt: "[i..<i + length (
        \<lparr>se_name = svc_name svc, se_healthy = True, se_duration = measured w i\<rparr> # new)] = i # [Suc i..<Suc i + length new]"
      by (simp add: upt_rec)
    show ?thesis
      apply (rule exI [of _ "
          \<lparr>se_name = svc_name svc, se_healthy = True, se_duration = measured w i\<rparr> # new"])
      apply (rule exI [of _ "Spawn i # hs @ evs"])
      unfolding upt
      using ih tr2 hs_http hs_nospawn by (auto split: if_splits)
  qed
qed

lemma attempt_result_returncode:
  "has_key (attempt_result w i t k) ''returncode'' \<and>
   dict_get (attempt_result w i t k) ''returncode'' = JInt (pr_rc (attempt_run w i k))"
  by (auto simp: attempt_result_def result_of_def Let_def parse_raw_def parse_adapter_def setdefault_def
      has_key_set dict_get_set split: option.splits sum.splits)

lemma attempt_loop_inv:
  "attempt_loop w i t attempt tr = (res, tr') \<Longrightarrow>
   \<exists>n. n > attempt \<and> res = attempt_result w i t n \<and>
       tr' = tr @ map (Attempt i) [Suc attempt..<Suc n] \<and>
       (\<forall>k. attempt < k \<and> k < n \<longrightarrow> pr_rc (attempt_run w i k) \<noteq> 0 \<and> int k \<le> t_retries t) \<and>
       (pr_rc (attempt_run w i n) = 0 \<or> int n > t_retries t)"
proof (induction w i t attempt tr rule: attempt_loop.induct)
  case (1 w i t attempt tr)
  show ?case
  proof (cases "pr_rc (attempt_run w i (Suc attempt)) = 0 \<or> int (Suc attempt) > t_retries t")
    case True
    with "1.prems" have "res = attempt_result w i t (Suc attempt)"
      and "tr' = tr @ map (Attempt i) [Suc attempt..<Suc (Suc attempt)]"
      by (auto split: if_splits)
    with True show ?thesis
      by (intro exI [of _ "Suc attempt"]) auto
  next
    case False
    then have f1: "pr_rc (attempt_run w i (Suc attempt)) \<noteq> 0"
      and f2: "\<not> int (Suc attempt) > t_retries t" by auto
    with "1.prems" have "attempt_loop w i t (Suc attempt) (tr @ [Attempt i (Suc attempt)]) = (res, tr')"
      by simp
    from "1.IH" [OF f1 f2 this] obtain n where n: "n > Suc attempt"
      "res = attempt_result w i t n"
      "tr' = (tr @ [Attempt i (Suc attempt)]) @ map (Attempt i) [Suc (Suc attempt)..<Suc n]"
      "\<forall>k. Suc attempt < k \<and> k < n \<longrightarrow> pr_rc (attempt_run w i k) \<noteq> 0 \<and> int k \<le> t_retries t"
      "pr_rc (attempt_run w i n) = 0 \<or> int n > t_retries t" by blast
    have u: "[Suc attempt..<Suc n] = Suc attempt # [Suc (Suc attempt)..<Suc n]"
      using n(1) by (simp add: upt_rec)
    have mid: "\<forall>k. attempt < k \<and> k < n \<longrightarrow> pr_rc (attempt_run w i k) \<noteq> 0 \<and> int k \<le> t_retries t"
    proof (intro allI impI)
      fix k assume k: "attempt < k \<and> k < n"
      show "pr_rc (attempt_run w i k) \<noteq> 0 \<and> int k \<le> t_retries t"
      proof (cases "k = Suc attempt")
        case True
        with f1 f2 show ?thesis by simp
      next
        case False
        with k have "Suc attempt < k \<and> k < n" by simp
        with n(4) show ?thesis by blast
      qed
    qed
    have tr'_eq: "tr' = tr @ map (Attempt i) [Suc attempt..<Suc n]"
      using n(3) u by (simp del: upt_Suc)
    show ?thesis
      apply (rule exI [of _ n])
      using n(1,2,5) mid tr'_eq by simp
  qed
qed

lemma run_installs_inv:
  "run_installs w i t icmds j tr = (r, tr') \<Longrightarrow>
   \<exists>n. n \<le> length icmds \<and> tr' = tr @ map (Install i) [j..<j + n] \<and>
       (r = Inr None \<longrightarrow> n = length icmds) \<and>
       (\<forall>res. r = Inr (Some res) \<longrightarrow> has_key res ''returncode'' \<and>
            (\<exists>rc. rc \<noteq> 0 \<and> dict_get res ''returncode'' = JInt rc))"
proof (induction icmds arbitrary: j tr)
  case Nil
  then show ?case by (intro exI [of _ 0]) auto
next
  case (Cons icmd rest)
  show ?case
  proof (cases "to_cmd_list icmd")
    case (Inl e)
    with Cons.prems show ?thesis by (intro exI [of _ 0]) auto
  next
    case (Inr c)
    show ?thesis
    proof (cases "install_run w i j")
      case None
      with Cons.prems Inr show ?thesis by (intro exI [of _ 0]) auto
    next
      case (Some pr)
      show ?thesis
      proof (cases "pr_rc pr = 0")
        case False
        with Cons.prems Inr Some show ?thesis by (intro exI [of _ 1]) auto
      next
        case True
        with Cons.prems Inr Some
        have "run_installs w i t rest (Suc j) (tr @ [Install i j]) = (r, tr')" by simp
        from Cons.IH [OF this] obtain n where n: "n \<le> length rest"
          "tr' = (tr @ [Install i j]) @ map (Install i) [Suc j..<Suc j + n]"
          "r = Inr None \<longrightarrow> n = length rest"
          "\<forall>res. r = Inr (Some res) \<longrightarrow> has_key res ''returncode'' \<and>
            (\<exists>rc. rc \<noteq> 0 \<and> dict_get res ''returncode'' = JInt rc)" by blast
        have u: "[j..<j + Suc n] = j # [Suc j..<Suc j + n]" by (simp add: upt_rec)
        have tr'_eq: "tr' = tr @ map (Install i) [j..<j + Suc n]"
          using n(2) u by (simp del: upt_Suc)
        show ?thesis
          apply (rule exI [of _ "Suc n"])
          using n(1,3,4) tr'_eq by simp
      qed
    qed
  qed
qed

lemma run_one_test_inv:
  assumes "run_one_test w i t tr = (r, tr')"
  shows "\<exists>evs. tr' = tr @ evs \<and> (\<forall>e\<in>set evs. is_test_event i e) \<and>
           (\<forall>res. r = Inr res \<longrightarrow> has_key res ''returncode'' \<and>
              (\<exists>rc. dict_get res ''returncode'' = JInt rc))"
proof (cases "to_cmd_list (t_cmd t)")
  case (Inl e)
  with assms show ?thesis by (auto simp: run_one_test_def)
next
  case (Inr cmd)
  obtain ri tr1 where ri: "run_installs w i t (t_install t) 0 tr = (ri, tr1)"
    by (cases "run_installs w i t (t_install t) 0 tr")
  from run_installs_inv [OF ri] obtain n where n:
    "tr1 = tr @ map (Install i) [0..<0 + n]"
    "\<forall>res. ri = Inr (Some res) \<longrightarrow> has_key res ''returncode'' \<and>
            (\<exists>rc. rc \<noteq> 0 \<and> dict_get res ''returncode'' = JInt rc)" by blast
  show ?thesis
  proof (cases ri)
    case (Inl e)
    with assms Inr ri n show ?thesis
      by (intro exI [of _ "map (Install i) [0..<0 + n]"]) (auto simp: run_one_test_def)
  next
    case r2: (Inr fo)
    show ?thesis
    proof (cases fo)
      case (Some failed)
      with assms Inr ri r2 have "r = Inr failed" "tr' = tr1" by (auto simp: run_one_test_def)
      with n r2 Some show ?thesis
        by (intro exI [of _ "map (Install i) [0..<0 + n]"]) auto
    next
      case None
      obtain res tr2 where al: "attempt_loop w i t 0 tr1 = (res, tr2)"
        by (cases "attempt_loop w i t 0 tr1")
      with assms Inr ri r2 None have rr: "r = Inr res" "tr' = tr2"
        by (auto simp: run_one_test_def simp del: attempt_loop.simps)
      from attempt_loop_inv [OF al] obtain m where m: "res = attempt_result w i t m"
        "tr2 = tr1 @ map (Attempt i) [Suc 0..<Suc m]" by blast
      show ?thesis
        apply (rule exI [of _ "map (Install i) [0..<0 + n] @ map (Attempt i) [Suc 0..<Suc m]"])
        using rr m n(1) attempt_result_returncode [of w i t m] by auto
    qed
  qed
qed

lemma run_tests_inv:
  "run_tests w tests i results all_ok tr = (Inr (res', ok'), tr') \<Longrightarrow>
   \<exists>new evs. res' = results @ new \<and> length new = length tests \<and> tr' = tr @ evs \<and>
      (\<forall>e\<in>set evs. \<exists>j. i \<le> j \<and> j < i + length tests \<and> is_test_event j e) \<and>
      (\<forall>r\<in>set new. has_key r ''returncode'') \<and>
      (ok' \<longleftrightarrow> all_ok \<and> (\<forall>r\<in>set new. dict_get r ''returncode'' = JInt 0))"
proof (induction tests arbitrary: i results all_ok tr)
  case Nil
  then show ?case by (intro exI [of _ "[]"]) simp
next
  case (Cons t rest)
  obtain r tr1 where r: "run_one_test w i t tr = (r, tr1)" by (cases "run_one_test w i t tr")
  with Cons.prems obtain res where res: "r = Inr res" by (cases r) auto
  from run_one_test_inv [OF r] res obtain evs1 where e1: "tr1 = tr @ evs1"
    "\<forall>e\<in>set evs1. is_test_event i e" "has_key res ''returncode''" by blast
  let ?ok1 = "if get_default res ''returncode'' (JInt 1) \<noteq> JInt 0 then False else all_ok"
  have ok1: "?ok1 \<longleftrightarrow> all_ok \<and> dict_get res ''returncode'' = JInt 0"
    using e1(3) by (simp add: get_default_def)
  from Cons.prems r res have "run_tests w rest (Suc i) (results @ [res]) ?ok1 tr1 = (Inr (res', ok'), tr')"
    by simp
  from Cons.IH [OF this] obtain new evs where ih: "res' = (results @ [res]) @ new"
    "length new = length rest" "tr' = tr1 @ evs"
    "\<forall>e\<in>set evs. \<exists>j. Suc i \<le> j \<and> j < Suc i + length rest \<and> is_test_event j e"
    "\<forall>r\<in>set new. has_key r ''returncode''"
    "ok' \<longleftrightarrow> ?ok1 \<and> (\<forall>r\<in>set new. dict_get r ''returncode'' = JInt 0)" by blast
  have ev: "\<forall>e\<in>set (evs1 @ evs). \<exists>j. i \<le> j \<and> j < i + length (t # rest) \<and> is_test_event j e"
  proof
    fix e assume "e \<in> set (evs1 @ evs)"
    then consider "e \<in> set evs1" | "e \<in> set evs" by auto
    then show "\<exists>j. i \<le> j \<and> j < i + length (t # rest) \<and> is_test_event j e"
    proof cases
      case 1
      with e1(2) have "is_test_event i e" by blast
      then show ?thesis by (intro exI [of _ i]) simp
    next
      case 2
      with ih(4) obtain j where "Suc i \<le> j \<and> j < Suc i + length rest \<and> is_test_event j e" by blast
      then show ?thesis by (intro exI [of _ j]) simp
    qed
  qed
  show ?case
    apply (rule exI [of _ "res # new"])
    apply (rule exI [of _ "evs1 @ evs"])
    using ih(1,2,3,5) e1(1,3) ev ih(6) ok1 by auto
qed

lemma start_services_inv:
  assumes "start_services w cfg mw = (Inr (metas, procs, ok), tr1)"
  shows "\<exists>evs. procs = [0..<length metas] \<and>
      length metas \<le> length (cfg_services cfg) \<and>
      map se_name metas = map svc_name (take (length metas) (cfg_services cfg)) \<and>
      filter is_spawn evs = map Spawn procs \<and>
      (\<forall>e\<in>set evs. is_spawn e \<or> is_http e) \<and>
      (if ok then length metas = length (cfg_services cfg) \<and> (\<forall>m\<in>set metas. se_healthy m) \<and> tr1 = evs
       else metas \<noteq> [] \<and> \<not> se_healthy (last metas) \<and> (\<forall>m\<in>set (butlast metas). se_healthy m) \<and>
            tr1 = stop_services w procs evs)"
proof -
  from assms have "start_loop w mw (cfg_services cfg) 0 [] [] [] = (Inr (metas, procs, ok), tr1)"
    by (simp add: start_services_def)
  from start_loop_inv [OF this] obtain new evs where h:
    "metas = [] @ new" "procs = [] @ [0..<0 + length new]"
    "length new \<le> length (cfg_services cfg)"
    "map se_name new = map svc_name (take (length new) (cfg_services cfg))"
    "filter is_spawn evs = map Spawn [0..<0 + length new]"
    "\<forall>e\<in>set evs. is_spawn e \<or> is_http e"
    "if ok then length new = length (cfg_services cfg) \<and> (\<forall>m\<in>set new. se_healthy m) \<and> tr1 = [] @ evs
       else new \<noteq> [] \<and> \<not> se_healthy (last new) \<and> (\<forall>m\<in>set (butlast new). se_healthy m) \<and>
            tr1 = stop_services w procs ([] @ evs)"
    by blast
  show ?thesis
    apply (rule exI [of _ evs])
    using h by (auto split: if_splits)
qed

lemma elapsed_after_mono: "m \<le> n \<Longrightarrow> elapsed_after w i m \<le> elapsed_after w i n"
  by (induction n) (auto simp: le_Suc_eq)

lemma answers_not_rejects: "answers w i expect n \<Longrightarrow> \<not> rejects w i expect n"
  by (auto simp: answers_def rejects_def split: probe_result.splits option.splits)

lemma raises_not_rejects: "probe w i n = ProbeRaises \<Longrightarrow> \<not> rejects w i expect n"
  by (simp add: rejects_def)

lemma raises_not_answers: "probe w i n = ProbeRaises \<Longrightarrow> \<not> answers w i expect n"
  by (simp add: answers_def)

lemma wait_http_spec:
  "wait_http w i expect T e tries tr = (r, tr') \<Longrightarrow> e = elapsed_after w i tries \<Longrightarrow>
   \<forall>m<tries. rejects w i expect (Suc m) \<Longrightarrow>
     (r = Inr True \<longrightarrow>
        (\<exists>n. in_time w i T n \<and> answers w i expect (Suc n) \<and>
             (\<forall>m<n. rejects w i expect (Suc m))))
   \<and> (r = Inr False \<longrightarrow> (\<forall>n. in_time w i T n \<longrightarrow> rejects w i expect (Suc n)))
   \<and> (\<forall>err. r = Inl err \<longrightarrow>
        (\<exists>n. in_time w i T n \<and> probe w i (Suc n) = ProbeRaises \<and>
             (\<forall>m<n. rejects w i expect (Suc m))))
   \<and> (\<exists>m\<ge>tries. tr' = tr @ map (HttpGet i) [Suc tries..<Suc m] \<and>
                  (in_time w i T tries \<longrightarrow> tries < m))"
proof (induction w i expect T e tries tr rule: wait_http.induct)
  case (1 w i expect T e tries tr)
  show ?case
  proof (cases "int e < T * 1000")
    case False
    with "1.prems"(1) have r: "r = Inr False" and t: "tr' = tr" by simp_all
    have nit: "\<not> in_time w i T tries" using False "1.prems"(2) by (simp add: in_time_def)
    have f: "\<forall>n. in_time w i T n \<longrightarrow> rejects w i expect (Suc n)"
    proof (intro allI impI)
      fix n assume a: "in_time w i T n"
      have "n < tries"
      proof (rule ccontr)
        assume "\<not> n < tries"
        then have "elapsed_after w i tries \<le> elapsed_after w i n"
          by (intro elapsed_after_mono) simp
        with a nit show False by (simp add: in_time_def)
      qed
      with "1.prems"(3) show "rejects w i expect (Suc n)" by blast
    qed
    have tr: "\<exists>m\<ge>tries. tr' = tr @ map (HttpGet i) [Suc tries..<Suc m] \<and>
                  (in_time w i T tries \<longrightarrow> tries < m)"
      using t nit by (intro exI [of _ tries]) simp
    show ?thesis using r f tr by simp
  next
    case True
    then have it: "in_time w i T tries" using "1.prems"(2) by (simp add: in_time_def)
    let ?tr1 = "tr @ [HttpGet i (Suc tries)]"
    let ?e1 = "e + probe_ms w i (Suc tries) + 400"
    have e1: "?e1 = elapsed_after w i (Suc tries)" using "1.prems"(2) by simp
    have one: "tr' = ?tr1 \<Longrightarrow> \<exists>m\<ge>tries. tr' = tr @ map (HttpGet i) [Suc tries..<Suc m] \<and>
                  (in_time w i T tries \<longrightarrow> tries < m)"
      by (intro exI [of _ "Suc tries"]) simp
    have more: "\<exists>m\<ge>Suc tries. tr' = ?tr1 @ map (HttpGet i) [Suc (Suc tries)..<Suc m] \<and>
                  (in_time w i T (Suc tries) \<longrightarrow> Suc tries < m) \<Longrightarrow>
          \<exists>m\<ge>tries. tr' = tr @ map (HttpGet i) [Suc tries..<Suc m] \<and>
                  (in_time w i T tries \<longrightarrow> tries < m)"
    proof -
      assume "\<exists>m\<ge>Suc tries. tr' = ?tr1 @ map (HttpGet i) [Suc (Suc tries)..<Suc m] \<and>
                  (in_time w i T (Suc tries) \<longrightarrow> Suc tries < m)"
      then obtain m where m: "Suc tries \<le> m"
        "tr' = ?tr1 @ map (HttpGet i) [Suc (Suc tries)..<Suc m]" by blast
      have u: "[Suc tries..<Suc m] = Suc tries # [Suc (Suc tries)..<Suc m]"
        using m(1) by (simp add: upt_rec)
      have "tr' = tr @ map (HttpGet i) [Suc tries..<Suc m]"
        using m(2) u by (simp del: upt_Suc)
      with m(1) show ?thesis by (intro exI [of _ m]) simp
    qed
    have again: "rejects w i expect (Suc tries) \<Longrightarrow> \<forall>m<Suc tries. rejects w i expect (Suc m)"
      using "1.prems"(3) by (simp add: less_Suc_eq)
    show ?thesis
    proof (cases "probe w i (Suc tries)")
      case (Body body)
      show ?thesis
      proof (cases "case expect of None \<Rightarrow> True | Some e \<Rightarrow> is_substr e body")
        case m: True
        with "1.prems"(1) True Body have r: "r = Inr True" and t: "tr' = ?tr1" by simp_all
        have "answers w i expect (Suc tries)" using Body m by (simp add: answers_def)
        with it "1.prems"(3)
        have "\<exists>n. in_time w i T n \<and> answers w i expect (Suc n) \<and>
             (\<forall>m<n. rejects w i expect (Suc m))" by blast
        with r one [OF t] show ?thesis by simp
      next
        case m: False
        with "1.prems"(1) True Body
        have w: "wait_http w i expect T ?e1 (Suc tries) ?tr1 = (r, tr')" by simp
        have "rejects w i expect (Suc tries)" using Body m
          by (simp add: rejects_def split: option.splits)
        from "1.IH"(1) [OF True Body m w e1 again [OF this]] more
        show ?thesis by blast
      qed
    next
      case URLError
      with "1.prems"(1) True
      have w: "wait_http w i expect T ?e1 (Suc tries) ?tr1 = (r, tr')" by simp
      have "rejects w i expect (Suc tries)" using URLError by (simp add: rejects_def)
      from "1.IH"(2) [OF True URLError w e1 again [OF this]] more
      show ?thesis by blast
    next
      case ProbeRaises
      with "1.prems"(1) True have r: "r = Inl OtherException" and t: "tr' = ?tr1" by simp_all
      from it ProbeRaises "1.prems"(3)
      have "\<exists>n. in_time w i T n \<and> probe w i (Suc n) = ProbeRaises \<and>
             (\<forall>m<n. rejects w i expect (Suc m))" by blast
      with r one [OF t] show ?thesis by simp
    qed
  qed
qed

lemma verdicts_exclusive:
  assumes p: "\<exists>n. in_time w i T n \<and> answers w i expect (Suc n) \<and> (\<forall>m<n. rejects w i expect (Suc m))"
  shows "\<not> (\<forall>n. in_time w i T n \<longrightarrow> rejects w i expect (Suc n))"
    and "\<not> (\<exists>n. in_time w i T n \<and> probe w i (Suc n) = ProbeRaises \<and>
             (\<forall>m<n. rejects w i expect (Suc m)))"
proof -
  from p obtain n where n: "in_time w i T n" "answers w i expect (Suc n)"
    "\<forall>m<n. rejects w i expect (Suc m)" by blast
  show "\<not> (\<forall>n. in_time w i T n \<longrightarrow> rejects w i expect (Suc n))"
    using n(1,2) answers_not_rejects by blast
  show "\<not> (\<exists>n. in_time w i T n \<and> probe w i (Suc n) = ProbeRaises \<and>
             (\<forall>m<n. rejects w i expect (Suc m)))"
  proof
    assume "\<exists>n. in_time w i T n \<and> probe w i (Suc n) = ProbeRaises \<and>
             (\<forall>m<n. rejects w i expect (Suc m))"
    then obtain k where k: "probe w i (Suc k) = ProbeRaises" "\<forall>m<k. rejects w i expect (Suc m)"
      by blast
    consider "n < k" | "k < n" | "n = k" by linarith
    then show False
    proof cases
      case 1
      with k(2) have "rejects w i expect (Suc n)" by blast
      with n(2) answers_not_rejects show False by blast
    next
      case 2
      with n(3) have "rejects w i expect (Suc k)" by blast
      with k(1) raises_not_rejects show False by blast
    next
      case 3
      with n(2) k(1) raises_not_answers show False by blast
    qed
  qed
qed

lemma effective_timeout_eq: "effective_timeout mw svc = timeout_in_force mw svc"
  by (simp add: effective_timeout_def timeout_in_force_def)

lemma health_of_spec:
  assumes "health_of w mw svc i tr = (r, tr')"
  shows "(r = Inr True \<longleftrightarrow> passes_healthcheck w mw svc i)
       \<and> (r = Inr False \<longleftrightarrow> fails_healthcheck w mw svc i)
       \<and> (\<exists>m. tr' = tr @ map (HttpGet i) [1..<Suc m] \<and>
              (url_declared svc \<and> 0 < timeout_in_force mw svc \<longrightarrow> 0 < m) \<and>
              (url_declared svc \<longrightarrow> timeout_in_force mw svc \<le> 0 \<longrightarrow> m = 0) \<and>
              (\<not> url_declared svc \<longrightarrow> m = 0))"
proof (cases "url_declared svc")
  case False
  with assms have "r = Inr True" "tr' = tr" by (simp_all add: health_of_def)
  with False show ?thesis by (simp add: passes_healthcheck_def fails_healthcheck_def)
next
  case True
  let ?T = "timeout_in_force mw svc"
  let ?x = "hc_expect svc"
  let ?P = "\<exists>n. in_time w i ?T n \<and> answers w i ?x (Suc n) \<and> (\<forall>m<n. rejects w i ?x (Suc m))"
  let ?F = "\<forall>n. in_time w i ?T n \<longrightarrow> rejects w i ?x (Suc n)"
  let ?X = "\<exists>n. in_time w i ?T n \<and> probe w i (Suc n) = ProbeRaises \<and>
             (\<forall>m<n. rejects w i ?x (Suc m))"
  from assms True have wh: "wait_http w i ?x ?T 0 0 tr = (r, tr')"
    by (simp add: health_of_def effective_timeout_eq del: wait_http.simps)
  have e0: "(0::nat) = elapsed_after w i 0" by simp
  have r0: "\<forall>m<(0::nat). rejects w i ?x (Suc m)" by simp
  from wait_http_spec [OF wh e0 r0]
  have a: "r = Inr True \<longrightarrow> ?P" and b: "r = Inr False \<longrightarrow> ?F" and c: "\<forall>err. r = Inl err \<longrightarrow> ?X"
    and d: "\<exists>m\<ge>0. tr' = tr @ map (HttpGet i) [Suc 0..<Suc m] \<and> (in_time w i ?T 0 \<longrightarrow> 0 < m)"
    by blast+
  have pf: "?P \<Longrightarrow> \<not> ?F" and px: "?P \<Longrightarrow> \<not> ?X"
    using verdicts_exclusive [of w i ?T ?x] by blast+
  have fx: "?F \<Longrightarrow> \<not> ?X" using raises_not_rejects by blast
  have three: "r = Inr True \<or> r = Inr False \<or> (\<exists>err. r = Inl err)"
    by (cases r) auto
  have p: "r = Inr True \<longleftrightarrow> ?P" using a b c pf px three by blast
  have f: "r = Inr False \<longleftrightarrow> ?F" using a b c pf fx three by blast
  from d obtain m where m: "tr' = tr @ map (HttpGet i) [1..<Suc m]"
    "in_time w i ?T 0 \<longrightarrow> 0 < m" by auto
  have m0: "?T \<le> 0 \<Longrightarrow> tr' = tr @ map (HttpGet i) [1..<Suc 0]"
    using wh by simp
  show ?thesis
  proof (cases "0 < ?T")
    case pos: True
    then have "in_time w i ?T 0" by (simp add: in_time_def)
    with m pos True p f show ?thesis
      by (simp add: passes_healthcheck_def fails_healthcheck_def del: upt_Suc) blast
  next
    case npos: False
    with m0 True p f show ?thesis
      by (simp add: passes_healthcheck_def fails_healthcheck_def del: upt_Suc)
  qed
qed

lemma passes_not_fails: "passes_healthcheck w mw svc i \<Longrightarrow> \<not> fails_healthcheck w mw svc i"
  unfolding passes_healthcheck_def fails_healthcheck_def
  using verdicts_exclusive(1) [of w i "timeout_in_force mw svc" "hc_expect svc"] by blast

lemma start_loop_entries:
  "start_loop w mw svcs i procs svc_meta tr = (Inr (meta', procs', ok), tr') \<Longrightarrow>
   \<exists>n\<le>length svcs.
      meta' = svc_meta @ map (\<lambda>j. recorded w mw (svcs ! j) (i + j)) [0..<n] \<and>
      (if ok then n = length svcs \<and> (\<forall>j<n. passes_healthcheck w mw (svcs ! j) (i + j))
       else 0 < n \<and> fails_healthcheck w mw (svcs ! (n - 1)) (i + (n - 1)) \<and>
            (\<forall>j<n - 1. passes_healthcheck w mw (svcs ! j) (i + j)))"
proof (induction svcs arbitrary: i procs svc_meta tr)
  case Nil
  then have "meta' = svc_meta" and ok by simp_all
  then show ?case by simp
next
  case (Cons svc rest)
  from Cons.prems obtain cmd where cmd: "to_cmd_list (svc_start svc) = Inr cmd"
    by (cases "to_cmd_list (svc_start svc)") auto
  from Cons.prems cmd have sp: "spawn_ok w i"
    by (auto split: if_splits)
  obtain hr tr2 where h: "health_of w mw svc i (tr @ [Spawn i]) = (hr, tr2)"
    by (cases "health_of w mw svc i (tr @ [Spawn i])")
  from Cons.prems cmd sp h obtain healthy where hr: "hr = Inr healthy"
    by (cases hr) auto
  have hp: "healthy \<longleftrightarrow> passes_healthcheck w mw svc i"
    using health_of_spec [OF h, THEN conjunct1] hr by auto
  have hf: "\<not> healthy \<longleftrightarrow> fails_healthcheck w mw svc i"
    using health_of_spec [OF h, THEN conjunct2, THEN conjunct1] hr by auto
  have entry: "
      \<lparr>se_name = svc_name svc, se_healthy = healthy, se_duration = measured w i\<rparr>
      = recorded w mw svc i"
    using hp by (simp add: recorded_def)
  show ?case
  proof (cases healthy)
    case False
    with Cons.prems cmd sp h hr
    have r: "meta' = svc_meta @ [\<lparr>se_name = svc_name svc, se_healthy = healthy,
                                   se_duration = measured w i\<rparr>]" "\<not> ok"
      by auto
    have "meta' = svc_meta @ map (\<lambda>j. recorded w mw ((svc # rest) ! j) (i + j)) [0..<Suc 0]"
      using r(1) entry by simp
    with r(2) hf False show ?thesis by (intro exI [of _ "Suc 0"]) simp
  next
    case True
    with Cons.prems cmd sp h hr have
      "start_loop w mw rest (Suc i) (procs @ [i])
         (svc_meta @ [\<lparr>se_name = svc_name svc, se_healthy = healthy,
                       se_duration = measured w i\<rparr>]) tr2
        = (Inr (meta', procs', ok), tr')"
      by auto
    from Cons.IH [OF this] obtain n where n: "n \<le> length rest"
      "meta' = (svc_meta @ [\<lparr>se_name = svc_name svc, se_healthy = healthy,
                             se_duration = measured w i\<rparr>])
               @ map (\<lambda>j. recorded w mw (rest ! j) (Suc i + j)) [0..<n]"
      "if ok then n = length rest \<and> (\<forall>j<n. passes_healthcheck w mw (rest ! j) (Suc i + j))
       else 0 < n \<and> fails_healthcheck w mw (rest ! (n - 1)) (Suc i + (n - 1)) \<and>
            (\<forall>j<n - 1. passes_healthcheck w mw (rest ! j) (Suc i + j))"
      by blast
    have m: "map (\<lambda>j. recorded w mw ((svc # rest) ! j) (i + j)) [0..<Suc n]
        = recorded w mw svc i # map (\<lambda>j. recorded w mw (rest ! j) (Suc i + j)) [0..<n]"
      by (simp add: map_upt_Suc del: upt_Suc)
    have meta: "meta' = svc_meta @ map (\<lambda>j. recorded w mw ((svc # rest) ! j) (i + j)) [0..<Suc n]"
      using n(2) entry by (simp only: m) simp
    have p0: "passes_healthcheck w mw svc i" using hp True by simp
    have shift: "\<And>b. (\<forall>j<b. passes_healthcheck w mw (rest ! j) (Suc i + j)) \<Longrightarrow>
        (\<forall>j<Suc b. passes_healthcheck w mw ((svc # rest) ! j) (i + j))"
    proof (intro allI impI)
      fix b j assume a: "\<forall>j<b. passes_healthcheck w mw (rest ! j) (Suc i + j)" and "j < Suc b"
      then show "passes_healthcheck w mw ((svc # rest) ! j) (i + j)"
        using p0 by (cases j) auto
    qed
    show ?thesis
    proof (cases ok)
      case ok: True
      with n(3) have "n = length rest" "\<forall>j<n. passes_healthcheck w mw (rest ! j) (Suc i + j)"
        by simp_all
      with shift [of n] meta ok show ?thesis
        by (intro exI [of _ "Suc n"]) (simp del: upt_Suc)
    next
      case nok: False
      from n(3) have "0 < n \<and> fails_healthcheck w mw (rest ! (n - 1)) (Suc i + (n - 1)) \<and>
            (\<forall>j<n - 1. passes_healthcheck w mw (rest ! j) (Suc i + j))"
        unfolding if_not_P [OF nok] .
      then have pos: "0 < n"
        and f: "fails_healthcheck w mw (rest ! (n - 1)) (Suc i + (n - 1))"
        and p: "\<forall>j<n - 1. passes_healthcheck w mw (rest ! j) (Suc i + j)" by blast+
      from pos have f': "fails_healthcheck w mw ((svc # rest) ! (Suc n - 1)) (i + (Suc n - 1))"
        using f by (cases n) simp_all
      from pos have "Suc n - 1 = Suc (n - 1)" by simp
      with shift [OF p] have p': "\<forall>j<Suc n - 1. passes_healthcheck w mw ((svc # rest) ! j) (i + j)"
        by simp
      show ?thesis
        apply (rule exI [of _ "Suc n"])
        using n(1) meta nok f' p' by (simp del: upt_Suc)
    qed
  qed
qed

lemma start_loop_fails:
  assumes "start_loop w mw svcs i procs svc_meta tr = (Inr (meta', procs', ok), tr')"
    and "k < length svcs" and "fails_healthcheck w mw (svcs ! k) (i + k)"
  shows "\<not> ok \<and> (\<exists>n\<le>k. meta' = svc_meta @ map (\<lambda>j. recorded w mw (svcs ! j) (i + j)) [0..<Suc n] \<and>
            fails_healthcheck w mw (svcs ! n) (i + n) \<and>
            (\<forall>j<n. passes_healthcheck w mw (svcs ! j) (i + j)))"
proof -
  from start_loop_entries [OF assms(1)] obtain n where n: "n \<le> length svcs"
    "meta' = svc_meta @ map (\<lambda>j. recorded w mw (svcs ! j) (i + j)) [0..<n]"
    "if ok then n = length svcs \<and> (\<forall>j<n. passes_healthcheck w mw (svcs ! j) (i + j))
       else 0 < n \<and> fails_healthcheck w mw (svcs ! (n - 1)) (i + (n - 1)) \<and>
            (\<forall>j<n - 1. passes_healthcheck w mw (svcs ! j) (i + j))" by blast
  have nok: "\<not> ok"
  proof
    assume ok
    with n(3) assms(2) have "passes_healthcheck w mw (svcs ! k) (i + k)" by simp
    with assms(3) passes_not_fails show False by blast
  qed
  from n(3) have "0 < n \<and> fails_healthcheck w mw (svcs ! (n - 1)) (i + (n - 1)) \<and>
            (\<forall>j<n - 1. passes_healthcheck w mw (svcs ! j) (i + j))"
    unfolding if_not_P [OF nok] .
  then have pos: "0 < n" and f: "fails_healthcheck w mw (svcs ! (n - 1)) (i + (n - 1))"
    and p: "\<forall>j<n - 1. passes_healthcheck w mw (svcs ! j) (i + j)" by blast+
  have le: "n - 1 \<le> k"
  proof (rule ccontr)
    assume "\<not> n - 1 \<le> k"
    with p have "passes_healthcheck w mw (svcs ! k) (i + k)" by simp
    with assms(3) passes_not_fails show False by blast
  qed
  from pos have "Suc (n - 1) = n" by simp
  with n(2) have "meta' = svc_meta @ map (\<lambda>j. recorded w mw (svcs ! j) (i + j)) [0..<Suc (n - 1)]"
    by simp
  with le f p nok show ?thesis by blast
qed

lemma start_loop_total:
  "k < length svcs \<Longrightarrow> \<forall>j\<le>k. startable w (svcs ! j) (i + j) \<Longrightarrow>
   \<forall>j<k. passes_healthcheck w mw (svcs ! j) (i + j) \<Longrightarrow>
   fails_healthcheck w mw (svcs ! k) (i + k) \<Longrightarrow>
   \<exists>x tr'. start_loop w mw svcs i procs svc_meta tr = (Inr x, tr')"
proof (induction svcs arbitrary: i procs svc_meta tr k)
  case Nil
  then show ?case by simp
next
  case (Cons svc rest)
  from Cons.prems(2) have "startable w svc i" by force
  then obtain cmd where cmd: "to_cmd_list (svc_start svc) = Inr cmd" and sp: "spawn_ok w i"
    by (auto simp: startable_def split: sum.splits)
  obtain hr tr2 where h: "health_of w mw svc i (tr @ [Spawn i]) = (hr, tr2)"
    by (cases "health_of w mw svc i (tr @ [Spawn i])")
  show ?case
  proof (cases k)
    case 0
    with Cons.prems(4) have "fails_healthcheck w mw svc i" by simp
    with health_of_spec [OF h, THEN conjunct2, THEN conjunct1] have "hr = Inr False" by blast
    with cmd sp h show ?thesis by auto
  next
    case (Suc k')
    with Cons.prems(3) have "passes_healthcheck w mw svc i" by force
    with health_of_spec [OF h, THEN conjunct1] have hr: "hr = Inr True" by blast
    have a: "k' < length rest" using Cons.prems(1) Suc by simp
    have b: "\<forall>j\<le>k'. startable w (rest ! j) (Suc i + j)"
    proof (intro allI impI)
      fix j assume "j \<le> k'"
      with Cons.prems(2) Suc have "startable w ((svc # rest) ! Suc j) (i + Suc j)" by auto
      then show "startable w (rest ! j) (Suc i + j)" by simp
    qed
    have c: "\<forall>j<k'. passes_healthcheck w mw (rest ! j) (Suc i + j)"
    proof (intro allI impI)
      fix j assume "j < k'"
      with Cons.prems(3) Suc have "passes_healthcheck w mw ((svc # rest) ! Suc j) (i + Suc j)" by auto
      then show "passes_healthcheck w mw (rest ! j) (Suc i + j)" by simp
    qed
    have d: "fails_healthcheck w mw (rest ! k') (Suc i + k')"
      using Cons.prems(4) Suc by simp
    from Cons.IH [OF a b c d] cmd sp h hr show ?thesis by simp
  qed
qed

lemma first_failure:
  assumes "k < length (cfg_services cfg)"
    and "\<forall>j\<le>k. startable w (cfg_services cfg ! j) j"
    and "\<forall>j<k. passes_healthcheck w mw (cfg_services cfg ! j) j"
    and "fails_healthcheck w mw (cfg_services cfg ! k) k"
  shows "\<exists>procs tr1. start_services w cfg mw =
           (Inr (map (\<lambda>j. recorded w mw (cfg_services cfg ! j) j) [0..<Suc k], procs, False), tr1)"
proof -
  have s: "\<forall>j\<le>k. startable w (cfg_services cfg ! j) (0 + j)" using assms(2) by simp
  have p: "\<forall>j<k. passes_healthcheck w mw (cfg_services cfg ! j) (0 + j)" using assms(3) by simp
  have f: "fails_healthcheck w mw (cfg_services cfg ! k) (0 + k)" using assms(4) by simp
  from start_loop_total [OF assms(1) s p f, of "[]" "[]" "[]"]
  obtain meta' procs' ok tr' where sl:
    "start_loop w mw (cfg_services cfg) 0 [] [] [] = (Inr (meta', procs', ok), tr')"
    by (metis prod_cases3)
  from start_loop_fails [OF sl assms(1) f] obtain n where n: "\<not> ok" "n \<le> k"
    "meta' = [] @ map (\<lambda>j. recorded w mw (cfg_services cfg ! j) (0 + j)) [0..<Suc n]"
    "fails_healthcheck w mw (cfg_services cfg ! n) (0 + n)" by blast
  have "n = k"
  proof (rule ccontr)
    assume "n \<noteq> k"
    with n(2) have "n < k" by simp
    with assms(3) have "passes_healthcheck w mw (cfg_services cfg ! n) n" by blast
    with n(4) passes_not_fails show False by force
  qed
  with sl n(1,3) show ?thesis by (simp add: start_services_def)
qed

lemma health_of_no_wait:
  "no_wait mw svc \<Longrightarrow> health_of w mw svc i tr = (Inr False, tr)"
  by (simp add: no_wait_def health_of_def effective_timeout_def)

lemma start_loop_no_wait:
  "start_loop w mw svcs i procs svc_meta tr = (r, tr') \<Longrightarrow> k < length svcs \<Longrightarrow>
   no_wait mw (svcs ! k) \<Longrightarrow>
   (\<forall>n. HttpGet (i + k) n \<notin> set tr \<longrightarrow> HttpGet (i + k) n \<notin> set tr') \<and>
   (\<forall>meta' procs' ok. r = Inr (meta', procs', ok) \<longrightarrow>
      \<not> ok \<and> length meta' \<le> length svc_meta + Suc k)"
proof (induction svcs arbitrary: i procs svc_meta tr k)
  case Nil
  then show ?case by simp
next
  case (Cons svc rest)
  show ?case
  proof (cases "to_cmd_list (svc_start svc)")
    case (Inl e)
    with Cons.prems(1) show ?thesis by auto
  next
    case (Inr cmd)
    show ?thesis
    proof (cases "spawn_ok w i")
      case False
      with Cons.prems(1) Inr show ?thesis by auto
    next
      case True
      obtain hr tr2 where h: "health_of w mw svc i (tr @ [Spawn i]) = (hr, tr2)"
        by (cases "health_of w mw svc i (tr @ [Spawn i])")
      from health_of_trace [OF h] obtain hs where tr2: "tr2 = tr @ [Spawn i] @ hs"
        and hs: "\<forall>e\<in>set hs. \<exists>n. e = HttpGet i n" by auto
      have stop_keeps: "\<And>n j ps t. HttpGet j n \<notin> set t \<Longrightarrow> HttpGet j n \<notin> set (stop_services w ps t)"
        by (auto simp: stop_services_def)
      show ?thesis
      proof (cases k)
        case 0
        with Cons.prems(3) have "no_wait mw svc" by simp
        from health_of_no_wait [OF this, of w i "tr @ [Spawn i]"] h
        have hr: "hr = Inr False" and t2: "tr2 = tr @ [Spawn i]" by simp_all
        with Cons.prems(1) Inr True h
        have r: "r = Inr (svc_meta @ [
            \<lparr>se_name = svc_name svc, se_healthy = False, se_duration = measured w i\<rparr>], procs @ [i], False)"
          and t': "tr' = stop_services w (procs @ [i]) (tr @ [Spawn i])" by auto
        show ?thesis using r t' 0 stop_keeps by auto
      next
        case (Suc k')
        have nohit: "\<And>n. HttpGet (i + k) n \<notin> set tr \<Longrightarrow> HttpGet (i + k) n \<notin> set tr2"
          using tr2 hs Suc by auto
        show ?thesis
        proof (cases hr)
          case (Inl e)
          with Cons.prems(1) Inr True h have "r = Inl e" "tr' = tr2" by auto
          with nohit show ?thesis by auto
        next
          case hh: (Inr healthy)
          show ?thesis
          proof (cases healthy)
            case False
            with Cons.prems(1) Inr True h hh
            have r: "r = Inr (svc_meta @ [
                \<lparr>se_name = svc_name svc, se_healthy = False, se_duration = measured w i\<rparr>], procs @ [i], False)"
              and t': "tr' = stop_services w (procs @ [i]) tr2" by auto
            show ?thesis using r t' nohit stop_keeps by auto
          next
            case t: True
            with Cons.prems(1) Inr True h hh
            have st: "start_loop w mw rest (Suc i) (procs @ [i]) (svc_meta @ [
                \<lparr>se_name = svc_name svc, se_healthy = True, se_duration = measured w i\<rparr>]) tr2
                    = (r, tr')" by auto
            have k'l: "k' < length rest" and nw': "no_wait mw (rest ! k')"
              using Cons.prems(2,3) Suc by simp_all
            note ih = Cons.IH [OF st k'l nw']
            have a1: "\<forall>n. HttpGet (i + k) n \<notin> set tr \<longrightarrow> HttpGet (i + k) n \<notin> set tr'"
            proof (intro allI impI)
              fix n assume "HttpGet (i + k) n \<notin> set tr"
              then have "HttpGet (i + k) n \<notin> set tr2" by (rule nohit)
              then have "HttpGet (Suc i + k') n \<notin> set tr2" using Suc by simp
              with ih have "HttpGet (Suc i + k') n \<notin> set tr'" by blast
              then show "HttpGet (i + k) n \<notin> set tr'" using Suc by simp
            qed
            have a2: "\<forall>meta' procs' ok. r = Inr (meta', procs', ok) \<longrightarrow>
                  \<not> ok \<and> length meta' \<le> length svc_meta + Suc k"
            proof (intro allI impI)
              fix meta' procs' ok assume "r = Inr (meta', procs', ok)"
              with ih have "\<not> ok \<and> length meta' \<le> length (svc_meta @ [
                  \<lparr>se_name = svc_name svc, se_healthy = True, se_duration = measured w i\<rparr>]) + Suc k'"
                by blast
              then show "\<not> ok \<and> length meta' \<le> length svc_meta + Suc k" using Suc by simp
            qed
            show ?thesis using a1 a2 by blast
          qed
        qed
      qed
    qed
  qed
qed

lemma start_loop_trace:
  "start_loop w mw svcs i procs svc_meta tr = (r, tr') \<Longrightarrow>
   \<exists>evs. tr' = tr @ evs \<and> (\<forall>e\<in>set evs. is_spawn e \<or> is_http e \<or> is_stop_event e)"
proof (induction svcs arbitrary: i procs svc_meta tr)
  case Nil
  then show ?case by simp
next
  case (Cons svc rest)
  show ?case
  proof (cases "to_cmd_list (svc_start svc)")
    case (Inl e)
    with Cons.prems show ?thesis by auto
  next
    case (Inr cmd)
    show ?thesis
    proof (cases "spawn_ok w i")
      case False
      with Cons.prems Inr show ?thesis by auto
    next
      case True
      obtain hr tr2 where h: "health_of w mw svc i (tr @ [Spawn i]) = (hr, tr2)"
        by (cases "health_of w mw svc i (tr @ [Spawn i])")
      from health_of_trace [OF h] obtain hs where tr2: "tr2 = tr @ Spawn i # hs"
        and hs: "\<forall>e\<in>set hs. \<exists>n. e = HttpGet i n" by auto
      have ev2: "\<forall>e\<in>set (Spawn i # hs). is_spawn e \<or> is_http e \<or> is_stop_event e"
        using hs by auto
      show ?thesis
      proof (cases hr)
        case (Inl e)
        with Cons.prems Inr True h have "tr' = tr2" by auto
        with tr2 ev2 show ?thesis by blast
      next
        case hh: (Inr healthy)
        show ?thesis
        proof (cases healthy)
          case False
          with Cons.prems Inr True h hh have "tr' = stop_services w (procs @ [i]) tr2" by auto
          then have "tr' = tr @ (Spawn i # hs) @ map Terminate (rev (procs @ [i]))
                @ map Kill (filter (still_running w (length tr2)) (rev (procs @ [i])))"
            using tr2 by (simp add: stop_services_def)
          moreover have "\<forall>e\<in>set ((Spawn i # hs) @ map Terminate (rev (procs @ [i]))
                @ map Kill (filter (still_running w (length tr2)) (rev (procs @ [i])))).
                is_spawn e \<or> is_http e \<or> is_stop_event e"
            using hs by auto
          ultimately show ?thesis by blast
        next
          case t: True
          with Cons.prems Inr True h hh
          have "start_loop w mw rest (Suc i) (procs @ [i]) (svc_meta @ [
              \<lparr>se_name = svc_name svc, se_healthy = True, se_duration = measured w i\<rparr>]) tr2
                  = (r, tr')" by auto
          from Cons.IH [OF this] obtain evs where e: "tr' = tr2 @ evs"
            "\<forall>e\<in>set evs. is_spawn e \<or> is_http e \<or> is_stop_event e" by blast
          have "tr' = tr @ (Spawn i # hs) @ evs" using e(1) tr2 by simp
          moreover have "\<forall>e\<in>set ((Spawn i # hs) @ evs). is_spawn e \<or> is_http e \<or> is_stop_event e"
            using ev2 e(2) by auto
          ultimately show ?thesis by blast
        qed
      qed
    qed
  qed
qed

lemma run_tests_not_reached:
  assumes "start_services w cfg mw = (sr, tr1)"
    and "\<forall>meta' procs' ok. sr = Inr (meta', procs', ok) \<longrightarrow> \<not> ok"
  shows "\<exists>stops. snd (main w cfg mw) = tr1 @ stops \<and> (\<forall>e\<in>set stops. is_stop_event e) \<and>
           (\<forall>code rep. fst (main w cfg mw) = Exited code rep \<longrightarrow>
              code = 1 \<and> \<not> overall_passed rep \<and> rep_results rep = [] \<and>
              (\<exists>procs. sr = Inr (rep_services rep, procs, False)))"
proof (cases sr)
  case (Inl e)
  with assms(1) have "main w cfg mw = (Crashed e, tr1)" by (simp add: main_def)
  then show ?thesis by (intro exI [of _ "[]"]) simp
next
  case (Inr x)
  obtain metas procs ok where x: "x = (metas, procs, ok)" by (cases x)
  with assms(2) Inr have "\<not> ok" by simp
  with assms(1) Inr x have m: "main w cfg mw =
      (Exited 1 \<lparr>overall_passed = False, rep_services = metas, rep_results = []\<rparr>,
       stop_services w procs tr1)" by (simp add: main_def)
  show ?thesis
    apply (rule exI [of _ "map Terminate (rev procs) @ map Kill (filter (still_running w (length tr1)) (rev procs))"])
    using m Inr x \<open>\<not> ok\<close> by (auto simp: stop_services_def)
qed

text \<open>
  Claim C3. Whenever a run ends with a report, \<open>overall_passed\<close> is true if and only if
  a health entry is recorded for every declared service and each is healthy, and the
  recorded return code of every result is zero; a passed report has one result per
  declared test; the exit code is 0 when \<open>overall_passed\<close> is true and 1 otherwise. A run
  that an exception ends has no report and exits with 1, so the exit code is 0 exactly
  when there is a report with \<open>overall_passed\<close> true.
\<close>

theorem main_verdict:
  "(\<forall>code rep tr. main w cfg mw = (Exited code rep, tr) \<longrightarrow>
      (overall_passed rep \<longleftrightarrow>
         (length (rep_services rep) = length (cfg_services cfg) \<and>
          (\<forall>m\<in>set (rep_services rep). se_healthy m)) \<and>
         (\<forall>r\<in>set (rep_results rep). dict_get r ''returncode'' = JInt 0))
      \<and> (overall_passed rep \<longrightarrow> length (rep_results rep) = length (cfg_tests cfg))
      \<and> code = (if overall_passed rep then 0 else 1))
   \<and> (exit_code (fst (main w cfg mw)) = 0 \<longleftrightarrow>
        (\<exists>code rep. fst (main w cfg mw) = Exited code rep \<and> overall_passed rep))
   \<and> (exit_code (fst (main w cfg mw)) \<noteq> 0 \<longrightarrow> exit_code (fst (main w cfg mw)) = 1)"
proof -
  have part1: "\<And>code rep tr. main w cfg mw = (Exited code rep, tr) \<Longrightarrow>
      (overall_passed rep \<longleftrightarrow>
         (length (rep_services rep) = length (cfg_services cfg) \<and>
          (\<forall>m\<in>set (rep_services rep). se_healthy m)) \<and>
         (\<forall>r\<in>set (rep_results rep). dict_get r ''returncode'' = JInt 0))
      \<and> (overall_passed rep \<longrightarrow> length (rep_results rep) = length (cfg_tests cfg))
      \<and> code = (if overall_passed rep then 0 else 1)"
  proof -
    fix code rep tr assume m: "main w cfg mw = (Exited code rep, tr)"
    obtain sr tr1 where ss: "start_services w cfg mw = (sr, tr1)"
      by (cases "start_services w cfg mw")
    with m obtain metas procs ok where sr: "sr = Inr (metas, procs, ok)"
      by (cases sr) (auto simp: main_def)
    from start_services_inv [OF ss [unfolded sr]] have inv:
      "if ok then length metas = length (cfg_services cfg) \<and> (\<forall>m\<in>set metas. se_healthy m)
       else metas \<noteq> [] \<and> \<not> se_healthy (last metas)" by (auto split: if_splits)
    show "(overall_passed rep \<longleftrightarrow>
         (length (rep_services rep) = length (cfg_services cfg) \<and>
          (\<forall>m\<in>set (rep_services rep). se_healthy m)) \<and>
         (\<forall>r\<in>set (rep_results rep). dict_get r ''returncode'' = JInt 0))
      \<and> (overall_passed rep \<longrightarrow> length (rep_results rep) = length (cfg_tests cfg))
      \<and> code = (if overall_passed rep then 0 else 1)"
    proof (cases ok)
      case False
      with m ss sr have rep: "rep = \<lparr>overall_passed = False, rep_services = metas, rep_results = []\<rparr>"
        and c: "code = 1" by (auto simp: main_def)
      from inv False have "metas \<noteq> []" "\<not> se_healthy (last metas)" by auto
      then have "\<not> (\<forall>m\<in>set metas. se_healthy m)" using last_in_set by blast
      with rep c show ?thesis by simp
    next
      case True
      obtain rt tr2 where rt: "run_tests w (cfg_tests cfg) 0 [] True tr1 = (rt, tr2)"
        by (cases "run_tests w (cfg_tests cfg) 0 [] True tr1")
      with m ss sr True obtain res all_ok where rr: "rt = Inr (res, all_ok)"
        by (cases rt) (auto simp: main_def)
      with m ss sr True rt have rep: "rep = \<lparr>overall_passed = all_ok, rep_services = metas, rep_results = res\<rparr>"
        and c: "code = (if all_ok then 0 else 1)" by (auto simp: main_def)
      from run_tests_inv [OF rt [unfolded rr]] obtain new where n: "res = [] @ new"
        "length new = length (cfg_tests cfg)"
        "all_ok \<longleftrightarrow> True \<and> (\<forall>r\<in>set new. dict_get r ''returncode'' = JInt 0)" by blast
      from inv True have "length metas = length (cfg_services cfg) \<and> (\<forall>m\<in>set metas. se_healthy m)" by simp
      with rep c n show ?thesis by simp
    qed
  qed
  have part2: "exit_code (fst (main w cfg mw)) = 0 \<longleftrightarrow>
        (\<exists>code rep. fst (main w cfg mw) = Exited code rep \<and> overall_passed rep)"
  proof (cases "fst (main w cfg mw)")
    case (Crashed e)
    then show ?thesis by simp
  next
    case (Exited code rep)
    then have "main w cfg mw = (Exited code rep, snd (main w cfg mw))"
      by (metis prod.collapse)
    from part1 [OF this] Exited show ?thesis by simp
  qed
  have part3: "exit_code (fst (main w cfg mw)) \<noteq> 0 \<longrightarrow> exit_code (fst (main w cfg mw)) = 1"
  proof (cases "fst (main w cfg mw)")
    case (Crashed e)
    then show ?thesis by simp
  next
    case (Exited code rep)
    then have "main w cfg mw = (Exited code rep, snd (main w cfg mw))"
      by (metis prod.collapse)
    from part1 [OF this] Exited show ?thesis by simp
  qed
  show ?thesis using part1 part2 part3 by blast
qed

text \<open>
  Claim C4. Let service \<open>k\<close> of the plan fail its healthcheck within its timeout: it
  declares a URL, and every probe made before the deadline of the timeout in force
  rejects. Then no run holds an install or a test attempt. A run that ends with a
  report ends with exit code 1, and in the report \<open>overall_passed\<close> is false, there is
  no result, and the health entries are those of the services \<open>0\<close> to \<open>n\<close>, where \<open>n\<close> is
  the first service whose healthcheck fails: each entry holds the name, the health and
  the measured duration of its service, the last one is unhealthy and those before it
  are healthy. The processes started in that run are those of the services \<open>0\<close> to \<open>n\<close>;
  after the start-up events each of them is terminated, last started first, then those
  still running are killed in the same order, and only stop events follow. When the
  services up to \<open>k\<close> can be started and those before \<open>k\<close> pass their healthcheck, the run
  does end with that report, with \<open>n = k\<close>.
\<close>

theorem unhealthy_service_aborts:
  assumes "k < length (cfg_services cfg)"
    and "fails_healthcheck w mw (cfg_services cfg ! k) k"
  shows "(\<forall>e\<in>set (snd (main w cfg mw)). \<forall>j. \<not> is_test_event j e)
       \<and> (\<forall>code rep. fst (main w cfg mw) = Exited code rep \<longrightarrow>
            code = 1 \<and> \<not> overall_passed rep \<and> rep_results rep = [] \<and>
            (\<exists>n\<le>k.
               rep_services rep = map (\<lambda>j. recorded w mw (cfg_services cfg ! j) j) [0..<Suc n] \<and>
               fails_healthcheck w mw (cfg_services cfg ! n) n \<and>
               (\<forall>j<n. passes_healthcheck w mw (cfg_services cfg ! j) j) \<and>
               (\<exists>evs stops.
                  snd (main w cfg mw) =
                    evs @ map Terminate (rev [0..<Suc n])
                        @ map Kill (filter (still_running w (length evs)) (rev [0..<Suc n]))
                        @ stops \<and>
                  filter is_spawn evs = map Spawn [0..<Suc n] \<and>
                  (\<forall>e\<in>set evs. is_spawn e \<or> is_http e) \<and>
                  (\<forall>e\<in>set stops. is_stop_event e))))
       \<and> ((\<forall>j\<le>k. startable w (cfg_services cfg ! j) j) \<and>
           (\<forall>j<k. passes_healthcheck w mw (cfg_services cfg ! j) j) \<longrightarrow>
            fst (main w cfg mw) =
              Exited 1
                \<lparr>overall_passed = False,
                   rep_services = map (\<lambda>j. recorded w mw (cfg_services cfg ! j) j) [0..<Suc k],
                   rep_results = []\<rparr>)"
proof -
  let ?svcs = "cfg_services cfg"
  have f0: "fails_healthcheck w mw (?svcs ! k) (0 + k)" using assms(2) by simp
  obtain sr tr1 where ss: "start_services w cfg mw = (sr, tr1)"
    by (cases "start_services w cfg mw")
  then have sl: "start_loop w mw ?svcs 0 [] [] [] = (sr, tr1)"
    by (simp add: start_services_def)
  have nok: "\<forall>meta' procs' ok. sr = Inr (meta', procs', ok) \<longrightarrow> \<not> ok"
  proof (intro allI impI)
    fix meta' procs' ok assume "sr = Inr (meta', procs', ok)"
    with sl have "start_loop w mw ?svcs 0 [] [] [] = (Inr (meta', procs', ok), tr1)" by simp
    from start_loop_fails [OF this assms(1) f0] show "\<not> ok" by blast
  qed
  from run_tests_not_reached [OF ss nok] obtain stops where st:
    "snd (main w cfg mw) = tr1 @ stops" "\<forall>e\<in>set stops. is_stop_event e"
    "\<forall>code rep. fst (main w cfg mw) = Exited code rep \<longrightarrow>
              code = 1 \<and> \<not> overall_passed rep \<and> rep_results rep = [] \<and>
              (\<exists>procs. sr = Inr (rep_services rep, procs, False))" by blast
  have tr1_ev: "\<forall>e\<in>set tr1. is_spawn e \<or> is_http e \<or> is_stop_event e"
    using start_loop_trace [OF sl] by auto
  have c1: "\<forall>e\<in>set (snd (main w cfg mw)). \<forall>j. \<not> is_test_event j e"
  proof (intro ballI allI)
    fix e j assume "e \<in> set (snd (main w cfg mw))"
    with st(1,2) tr1_ev have "is_spawn e \<or> is_http e \<or> is_stop_event e" by auto
    then show "\<not> is_test_event j e" by (cases e) auto
  qed
  have c2: "\<forall>code rep. fst (main w cfg mw) = Exited code rep \<longrightarrow>
            code = 1 \<and> \<not> overall_passed rep \<and> rep_results rep = [] \<and>
            (\<exists>n\<le>k.
               rep_services rep = map (\<lambda>j. recorded w mw (?svcs ! j) j) [0..<Suc n] \<and>
               fails_healthcheck w mw (?svcs ! n) n \<and>
               (\<forall>j<n. passes_healthcheck w mw (?svcs ! j) j) \<and>
               (\<exists>evs stops.
                  snd (main w cfg mw) =
                    evs @ map Terminate (rev [0..<Suc n])
                        @ map Kill (filter (still_running w (length evs)) (rev [0..<Suc n]))
                        @ stops \<and>
                  filter is_spawn evs = map Spawn [0..<Suc n] \<and>
                  (\<forall>e\<in>set evs. is_spawn e \<or> is_http e) \<and>
                  (\<forall>e\<in>set stops. is_stop_event e)))"
  proof (intro allI impI)
    fix code rep assume ex: "fst (main w cfg mw) = Exited code rep"
    with st(3) obtain procs where r: "code = 1" "\<not> overall_passed rep" "rep_results rep = []"
      "sr = Inr (rep_services rep, procs, False)" by blast
    from sl r(4)
    have sl': "start_loop w mw ?svcs 0 [] [] [] = (Inr (rep_services rep, procs, False), tr1)"
      by simp
    from start_loop_fails [OF sl' assms(1) f0] obtain n where n: "n \<le> k"
      "rep_services rep = [] @ map (\<lambda>j. recorded w mw (?svcs ! j) (0 + j)) [0..<Suc n]"
      "fails_healthcheck w mw (?svcs ! n) (0 + n)"
      "\<forall>j<n. passes_healthcheck w mw (?svcs ! j) (0 + j)" by blast
    have len: "length (rep_services rep) = Suc n" using n(2) by simp
    from start_services_inv [OF ss [unfolded r(4)]] obtain evs where inv:
      "procs = [0..<length (rep_services rep)]"
      "filter is_spawn evs = map Spawn procs" "\<forall>e\<in>set evs. is_spawn e \<or> is_http e"
      "tr1 = stop_services w procs evs" by auto
    have procs: "procs = [0..<Suc n]" using inv(1) len by simp
    have tr: "snd (main w cfg mw) =
                    evs @ map Terminate (rev [0..<Suc n])
                        @ map Kill (filter (still_running w (length evs)) (rev [0..<Suc n]))
                        @ stops"
      using st(1) inv(4) procs by (simp add: stop_services_def del: upt_Suc)
    have "\<exists>evs stops.
                  snd (main w cfg mw) =
                    evs @ map Terminate (rev [0..<Suc n])
                        @ map Kill (filter (still_running w (length evs)) (rev [0..<Suc n]))
                        @ stops \<and>
                  filter is_spawn evs = map Spawn [0..<Suc n] \<and>
                  (\<forall>e\<in>set evs. is_spawn e \<or> is_http e) \<and>
                  (\<forall>e\<in>set stops. is_stop_event e)"
      apply (rule exI [of _ evs], rule exI [of _ stops])
      using tr inv(2,3) procs st(2) by (simp del: upt_Suc)
    moreover have "rep_services rep = map (\<lambda>j. recorded w mw (?svcs ! j) j) [0..<Suc n]"
      using n(2) by simp
    moreover have "fails_healthcheck w mw (?svcs ! n) n" using n(3) by simp
    moreover have "\<forall>j<n. passes_healthcheck w mw (?svcs ! j) j" using n(4) by simp
    ultimately show "code = 1 \<and> \<not> overall_passed rep \<and> rep_results rep = [] \<and>
            (\<exists>n\<le>k.
               rep_services rep = map (\<lambda>j. recorded w mw (?svcs ! j) j) [0..<Suc n] \<and>
               fails_healthcheck w mw (?svcs ! n) n \<and>
               (\<forall>j<n. passes_healthcheck w mw (?svcs ! j) j) \<and>
               (\<exists>evs stops.
                  snd (main w cfg mw) =
                    evs @ map Terminate (rev [0..<Suc n])
                        @ map Kill (filter (still_running w (length evs)) (rev [0..<Suc n]))
                        @ stops \<and>
                  filter is_spawn evs = map Spawn [0..<Suc n] \<and>
                  (\<forall>e\<in>set evs. is_spawn e \<or> is_http e) \<and>
                  (\<forall>e\<in>set stops. is_stop_event e)))"
      using r(1,2,3) n(1) by blast
  qed
  have c3: "(\<forall>j\<le>k. startable w (?svcs ! j) j) \<and>
           (\<forall>j<k. passes_healthcheck w mw (?svcs ! j) j) \<longrightarrow>
            fst (main w cfg mw) =
              Exited 1
                \<lparr>overall_passed = False,
                   rep_services = map (\<lambda>j. recorded w mw (?svcs ! j) j) [0..<Suc k],
                   rep_results = []\<rparr>"
  proof
    assume a: "(\<forall>j\<le>k. startable w (?svcs ! j) j) \<and>
           (\<forall>j<k. passes_healthcheck w mw (?svcs ! j) j)"
    then have s: "\<forall>j\<le>k. startable w (?svcs ! j) j"
      and p: "\<forall>j<k. passes_healthcheck w mw (?svcs ! j) j" by blast+
    from first_failure [OF assms(1) s p assms(2)] obtain procs tr2 where
      "start_services w cfg mw =
           (Inr (map (\<lambda>j. recorded w mw (?svcs ! j) j) [0..<Suc k], procs, False), tr2)"
      by blast
    then show "fst (main w cfg mw) =
              Exited 1
                \<lparr>overall_passed = False,
                   rep_services = map (\<lambda>j. recorded w mw (?svcs ! j) j) [0..<Suc k],
                   rep_results = []\<rparr>"
      by (simp add: main_def del: upt_Suc)
  qed
  show ?thesis using c1 c2 c3 by (intro conjI)
qed

lemmas demo_defs = healthy_world_def failing_world_def backend_service_def frontend_service_def
  flaky_test_def demo_config_def main_def start_services_def health_of_def url_declared_def
  effective_timeout_def stop_services_def run_one_test_def attempt_result_def
  parse_raw_def parse_adapter_def setdefault_def result_of_def tail_def get_default_def

theorem main_verdict_witness:
  "fst (main healthy_world demo_config 0)
     = Exited 0
        \<lparr>overall_passed = True,
           rep_services = [
               \<lparr>se_name = ''backend'', se_healthy = True, se_duration = 101\<rparr>,

                               \<lparr>se_name = ''frontend'', se_healthy = True, se_duration = 101\<rparr>],
           rep_results =
             [[(''type'', JStr ''raw''), (''returncode'', JInt 0),
               (''summary'', JDict [(''stdout_tail'', JStr ''ok''), (''stderr_tail'', JStr [])]),
               (''name'', JStr ''api'')]]\<rparr>
   \<and> exit_code (fst (main healthy_world demo_config 0)) = 0
   \<and> fst (main failing_world demo_config 0)
     = Exited 1
        \<lparr>overall_passed = False,
           rep_services = [
               \<lparr>se_name = ''backend'', se_healthy = True, se_duration = 900\<rparr>,

                               \<lparr>se_name = ''frontend'', se_healthy = False, se_duration = 2820\<rparr>],
           rep_results = []\<rparr>
   \<and> exit_code (fst (main failing_world demo_config 0)) = 1"
proof -
  let ?rep = "\<lparr>overall_passed = True,
           rep_services = [
               \<lparr>se_name = ''backend'', se_healthy = True, se_duration = 101\<rparr>,

                               \<lparr>se_name = ''frontend'', se_healthy = True, se_duration = 101\<rparr>],
           rep_results =
             [[(''type'', JStr ''raw''), (''returncode'', JInt 0),
               (''summary'', JDict [(''stdout_tail'', JStr ''ok''), (''stderr_tail'', JStr [])]),
               (''name'', JStr ''api'')]]\<rparr>"
  let ?rep2 = "\<lparr>overall_passed = False,
           rep_services = [
               \<lparr>se_name = ''backend'', se_healthy = True, se_duration = 900\<rparr>,

                               \<lparr>se_name = ''frontend'', se_healthy = False, se_duration = 2820\<rparr>],
           rep_results = []\<rparr>"
  have a: "fst (main healthy_world demo_config 0) = Exited 0 ?rep"
    by (simp add: demo_defs)
  have b: "fst (main failing_world demo_config 0) = Exited 1 ?rep2"
    by (simp add: demo_defs)
  have "\<exists>code rep. fst (main healthy_world demo_config 0) = Exited code rep \<and> overall_passed rep"
    using a by simp
  then have c: "exit_code (fst (main healthy_world demo_config 0)) = 0"
    using main_verdict [of healthy_world demo_config 0] by blast
  have "\<not> (\<exists>code rep. fst (main failing_world demo_config 0) = Exited code rep \<and> overall_passed rep)"
    using b by simp
  then have d: "exit_code (fst (main failing_world demo_config 0)) = 1"
    using main_verdict [of failing_world demo_config 0] by blast
  show ?thesis using a b c d by (intro conjI)
qed

theorem unhealthy_service_aborts_witness:
  "1 < length (cfg_services demo_config)
   \<and> fails_healthcheck failing_world 0 (cfg_services demo_config ! 1) 1
   \<and> startable failing_world (cfg_services demo_config ! 0) 0
   \<and> startable failing_world (cfg_services demo_config ! 1) 1
   \<and> passes_healthcheck failing_world 0 (cfg_services demo_config ! 0) 0
   \<and> main failing_world demo_config 0
     = (Exited 1
         \<lparr>overall_passed = False,
            rep_services =
              [\<lparr>se_name = ''backend'', se_healthy = True, se_duration = 900\<rparr>,
               \<lparr>se_name = ''frontend'', se_healthy = False, se_duration = 2820\<rparr>],
            rep_results = []\<rparr>,
        [Spawn 0, HttpGet 0 1, Spawn 1, HttpGet 1 1, HttpGet 1 2, HttpGet 1 3,
         Terminate 1, Terminate 0, Kill 0, Terminate 1, Terminate 0, Kill 0])
   \<and> fst (main failing_world demo_config 0)
     = Exited 1
         \<lparr>overall_passed = False,
            rep_services =
              map (\<lambda>j. recorded failing_world 0 (cfg_services demo_config ! j) j) [0..<Suc 1],
            rep_results = []\<rparr>"
proof -
  have k: "1 < length (cfg_services demo_config)" by (simp add: demo_config_def)
  have f: "fails_healthcheck failing_world 0 (cfg_services demo_config ! 1) 1"
    by (simp add: demo_config_def fails_healthcheck_def rejects_def failing_world_def
        frontend_service_def url_declared_def)
  have s0: "startable failing_world (cfg_services demo_config ! 0) 0"
    by (simp add: demo_config_def startable_def failing_world_def backend_service_def)
  have s1: "startable failing_world (cfg_services demo_config ! 1) 1"
    by (simp add: demo_config_def startable_def failing_world_def frontend_service_def)
  have "in_time failing_world 0 (timeout_in_force 0 (cfg_services demo_config ! 0)) 0 \<and>
        answers failing_world 0 (hc_expect (cfg_services demo_config ! 0)) (Suc 0) \<and>
        (\<forall>m<0. rejects failing_world 0 (hc_expect (cfg_services demo_config ! 0)) (Suc m))"
    by (simp add: demo_config_def in_time_def timeout_in_force_def answers_def failing_world_def
        backend_service_def)
  then have p: "passes_healthcheck failing_world 0 (cfg_services demo_config ! 0) 0"
    unfolding passes_healthcheck_def by blast
  have s: "\<forall>j\<le>1. startable failing_world (cfg_services demo_config ! j) j"
    using s0 s1 by (simp add: le_Suc_eq)
  have ps: "\<forall>j<1. passes_healthcheck failing_world 0 (cfg_services demo_config ! j) j"
    using p by simp
  have m: "main failing_world demo_config 0
     = (Exited 1
         \<lparr>overall_passed = False,
            rep_services =
              [\<lparr>se_name = ''backend'', se_healthy = True, se_duration = 900\<rparr>,
               \<lparr>se_name = ''frontend'', se_healthy = False, se_duration = 2820\<rparr>],
            rep_results = []\<rparr>,
        [Spawn 0, HttpGet 0 1, Spawn 1, HttpGet 1 1, HttpGet 1 2, HttpGet 1 3,
         Terminate 1, Terminate 0, Kill 0, Terminate 1, Terminate 0, Kill 0])"
    by (simp add: demo_defs)
  from unhealthy_service_aborts [OF k f, THEN conjunct2, THEN conjunct2] s ps
  have r: "fst (main failing_world demo_config 0)
     = Exited 1
         \<lparr>overall_passed = False,
            rep_services =
              map (\<lambda>j. recorded failing_world 0 (cfg_services demo_config ! j) j) [0..<Suc 1],
            rep_results = []\<rparr>"
    by blast
  show ?thesis using k f s0 s1 p m r by (intro conjI)
qed









lemma health_of_first_probe:
  assumes "health_of w mw svc i tr = (r, tr')" and "url_declared svc"
    and "0 < timeout_in_force mw svc"
  shows "\<exists>rest. tr' = tr @ HttpGet i 1 # rest"
proof -
  from health_of_spec [OF assms(1), THEN conjunct2, THEN conjunct2]
  obtain m where m1: "tr' = tr @ map (HttpGet i) [1..<Suc m]"
    and pos: "url_declared svc \<and> 0 < timeout_in_force mw svc \<longrightarrow> 0 < m"
    by (elim exE conjE)
  from pos assms(2,3) have "0 < m" by simp
  note m = m1 this
  from m(2) have "[1..<Suc m] = 1 # [Suc 1..<Suc m]" by (intro upt_conv_Cons) simp
  with m(1) have "tr' = tr @ HttpGet i 1 # map (HttpGet i) [Suc 1..<Suc m]"
    by (simp del: upt_Suc)
  then show ?thesis ..
qed

lemma health_of_none:
  assumes "health_of w mw svc i tr = (r, tr')" and "url_declared svc"
    and "timeout_in_force mw svc \<le> 0"
  shows "r = Inr False \<and> tr' = tr"
  using assms by (simp add: health_of_def effective_timeout_eq)

lemma main_report_services:
  assumes "fst (main w cfg mw) = Exited code rep"
  shows "\<exists>procs ok tr1. start_services w cfg mw = (Inr (rep_services rep, procs, ok), tr1)"
proof -
  obtain sr tr1 where ss: "start_services w cfg mw = (sr, tr1)"
    by (cases "start_services w cfg mw")
  with assms obtain metas procs ok where sr: "sr = Inr (metas, procs, ok)"
    by (cases sr) (auto simp: main_def)
  have "rep_services rep = metas"
  proof (cases ok)
    case False
    with assms ss sr show ?thesis by (auto simp: main_def)
  next
    case True
    obtain rt tr2 where rt: "run_tests w (cfg_tests cfg) 0 [] True tr1 = (rt, tr2)"
      by (cases "run_tests w (cfg_tests cfg) 0 [] True tr1")
    with assms ss sr True obtain res all_ok where "rt = Inr (res, all_ok)"
      by (cases rt) (auto simp: main_def)
    with assms ss sr True rt show ?thesis by (auto simp: main_def)
  qed
  with ss sr show ?thesis by blast
qed

text \<open>
  Claim C10, as amended. \<open>wait_http\<close> called with a timeout that is zero or negative
  returns \<open>False\<close> without a single HTTP request. The timeout that \<open>start_services\<close> calls
  it with is the declared \<open>timeout_sec\<close> when \<open>--max-service-wait\<close> is not positive, and
  the larger of the two when it is. So the healthcheck of a service that declares a URL
  makes no request and is lost at once when that timeout is not positive, starts with a
  request when it is positive, and in either case is won exactly when some probe made
  before the deadline of that timeout answers after rejecting ones only, and lost exactly
  when every probe made before it rejects; the health entries of a report are the
  verdicts so defined. When \<open>--max-service-wait\<close> is not positive, a service that
  declares a healthcheck URL with \<open>timeout_sec \<le> 0\<close> is never probed, the run holds no
  install and no test attempt, and when it ends with a report the exit code is 1,
  \<open>overall_passed\<close> is false, there is no result, and the last health entry is an
  unhealthy one at or before the position of that service.
\<close>

theorem zero_timeout_healthcheck:
  "(timeout_sec \<le> 0 \<longrightarrow> wait_http w i expect timeout_sec 0 0 tr = (Inr False, tr))
   \<and> effective_timeout mw svc = (if 0 < mw then max (hc_timeout svc) mw else hc_timeout svc)
   \<and> (\<forall>r tr'. health_of w mw svc i tr = (r, tr') \<and> url_declared svc \<longrightarrow>
         ((if 0 < mw then max (hc_timeout svc) mw else hc_timeout svc) \<le> 0 \<longrightarrow>
            r = Inr False \<and> tr' = tr)
       \<and> (0 < (if 0 < mw then max (hc_timeout svc) mw else hc_timeout svc) \<longrightarrow>
            (\<exists>rest. tr' = tr @ HttpGet i 1 # rest))
       \<and> (r = Inr True \<longleftrightarrow>
            (\<exists>n. in_time w i (if 0 < mw then max (hc_timeout svc) mw else hc_timeout svc) n \<and>
                 answers w i (hc_expect svc) (Suc n) \<and>
                 (\<forall>m<n. rejects w i (hc_expect svc) (Suc m))))
       \<and> (r = Inr False \<longleftrightarrow>
            (\<forall>n. in_time w i (if 0 < mw then max (hc_timeout svc) mw else hc_timeout svc) n \<longrightarrow>
                 rejects w i (hc_expect svc) (Suc n))))
   \<and> (\<forall>code rep. fst (main w cfg mw) = Exited code rep \<longrightarrow>
         (\<exists>n\<le>length (cfg_services cfg).
            rep_services rep = map (\<lambda>j. recorded w mw (cfg_services cfg ! j) j) [0..<n]))
   \<and> (\<forall>k. k < length (cfg_services cfg) \<and> url_declared (cfg_services cfg ! k) \<and>
          hc_timeout (cfg_services cfg ! k) \<le> 0 \<and> mw \<le> 0 \<longrightarrow>
        (\<forall>n. HttpGet k n \<notin> set (snd (main w cfg mw))) \<and>
        (\<forall>e\<in>set (snd (main w cfg mw)). \<forall>j. \<not> is_test_event j e) \<and>
        (\<forall>code rep. fst (main w cfg mw) = Exited code rep \<longrightarrow>
           code = 1 \<and> \<not> overall_passed rep \<and> rep_results rep = [] \<and>
           rep_services rep \<noteq> [] \<and> \<not> se_healthy (last (rep_services rep)) \<and>
           length (rep_services rep) \<le> Suc k))"
proof -
  let ?T = "if 0 < mw then max (hc_timeout svc) mw else hc_timeout svc"
  have T: "timeout_in_force mw svc = ?T" by (simp add: timeout_in_force_def)
  have p1: "timeout_sec \<le> 0 \<longrightarrow> wait_http w i expect timeout_sec 0 0 tr = (Inr False, tr)"
    by (simp add: wait_http_nonpositive)
  have p2: "effective_timeout mw svc = ?T"
    by (simp add: effective_timeout_eq T)
  have p3: "\<forall>r tr'. health_of w mw svc i tr = (r, tr') \<and> url_declared svc \<longrightarrow>
         (?T \<le> 0 \<longrightarrow> r = Inr False \<and> tr' = tr)
       \<and> (0 < ?T \<longrightarrow> (\<exists>rest. tr' = tr @ HttpGet i 1 # rest))
       \<and> (r = Inr True \<longleftrightarrow>
            (\<exists>n. in_time w i ?T n \<and> answers w i (hc_expect svc) (Suc n) \<and>
                 (\<forall>m<n. rejects w i (hc_expect svc) (Suc m))))
       \<and> (r = Inr False \<longleftrightarrow>
            (\<forall>n. in_time w i ?T n \<longrightarrow> rejects w i (hc_expect svc) (Suc n)))"
  proof (intro allI impI)
    fix r tr' assume a: "health_of w mw svc i tr = (r, tr') \<and> url_declared svc"
    then have h: "health_of w mw svc i tr = (r, tr')" and u: "url_declared svc" by blast+
    have a1: "?T \<le> 0 \<longrightarrow> r = Inr False \<and> tr' = tr"
      using health_of_none [OF h u] by (simp only: T) (rule impI)
    have a2: "0 < ?T \<longrightarrow> (\<exists>rest. tr' = tr @ HttpGet i 1 # rest)"
      using health_of_first_probe [OF h u] by (simp only: T) (rule impI)
    have pd: "passes_healthcheck w mw svc i \<longleftrightarrow>
            (\<exists>n. in_time w i ?T n \<and> answers w i (hc_expect svc) (Suc n) \<and>
                 (\<forall>m<n. rejects w i (hc_expect svc) (Suc m)))"
      using u by (simp only: passes_healthcheck_def timeout_in_force_def simp_thms)
    have fd: "fails_healthcheck w mw svc i \<longleftrightarrow>
            (\<forall>n. in_time w i ?T n \<longrightarrow> rejects w i (hc_expect svc) (Suc n))"
      using u by (simp only: fails_healthcheck_def timeout_in_force_def simp_thms)
    have a3: "r = Inr True \<longleftrightarrow>
            (\<exists>n. in_time w i ?T n \<and> answers w i (hc_expect svc) (Suc n) \<and>
                 (\<forall>m<n. rejects w i (hc_expect svc) (Suc m)))"
      using health_of_spec [OF h, THEN conjunct1] unfolding pd .
    have a4: "r = Inr False \<longleftrightarrow>
            (\<forall>n. in_time w i ?T n \<longrightarrow> rejects w i (hc_expect svc) (Suc n))"
      using health_of_spec [OF h, THEN conjunct2, THEN conjunct1] unfolding fd .
    show "(?T \<le> 0 \<longrightarrow> r = Inr False \<and> tr' = tr)
       \<and> (0 < ?T \<longrightarrow> (\<exists>rest. tr' = tr @ HttpGet i 1 # rest))
       \<and> (r = Inr True \<longleftrightarrow>
            (\<exists>n. in_time w i ?T n \<and> answers w i (hc_expect svc) (Suc n) \<and>
                 (\<forall>m<n. rejects w i (hc_expect svc) (Suc m))))
       \<and> (r = Inr False \<longleftrightarrow>
            (\<forall>n. in_time w i ?T n \<longrightarrow> rejects w i (hc_expect svc) (Suc n)))"
      using a1 a2 a3 a4 by (intro conjI)
  qed
  have p4: "\<forall>code rep. fst (main w cfg mw) = Exited code rep \<longrightarrow>
         (\<exists>n\<le>length (cfg_services cfg).
            rep_services rep = map (\<lambda>j. recorded w mw (cfg_services cfg ! j) j) [0..<n])"
  proof (intro allI impI)
    fix code rep assume ex: "fst (main w cfg mw) = Exited code rep"
    from main_report_services [OF ex] obtain procs ok tr1 where
      "start_services w cfg mw = (Inr (rep_services rep, procs, ok), tr1)" by blast
    then have "start_loop w mw (cfg_services cfg) 0 [] [] []
        = (Inr (rep_services rep, procs, ok), tr1)"
      by (simp add: start_services_def)
    from start_loop_entries [OF this] obtain n where "n \<le> length (cfg_services cfg)"
      "rep_services rep = [] @ map (\<lambda>j. recorded w mw (cfg_services cfg ! j) (0 + j)) [0..<n]"
      by blast
    then show "\<exists>n\<le>length (cfg_services cfg).
            rep_services rep = map (\<lambda>j. recorded w mw (cfg_services cfg ! j) j) [0..<n]"
      by (intro exI [of _ n]) simp
  qed
  have p5: "\<forall>k. k < length (cfg_services cfg) \<and> url_declared (cfg_services cfg ! k) \<and>
          hc_timeout (cfg_services cfg ! k) \<le> 0 \<and> mw \<le> 0 \<longrightarrow>
        (\<forall>n. HttpGet k n \<notin> set (snd (main w cfg mw))) \<and>
        (\<forall>e\<in>set (snd (main w cfg mw)). \<forall>j. \<not> is_test_event j e) \<and>
        (\<forall>code rep. fst (main w cfg mw) = Exited code rep \<longrightarrow>
           code = 1 \<and> \<not> overall_passed rep \<and> rep_results rep = [] \<and>
           rep_services rep \<noteq> [] \<and> \<not> se_healthy (last (rep_services rep)) \<and>
           length (rep_services rep) \<le> Suc k)"
  proof (intro allI impI)
  fix k
  assume a: "k < length (cfg_services cfg) \<and> url_declared (cfg_services cfg ! k) \<and>
          hc_timeout (cfg_services cfg ! k) \<le> 0 \<and> mw \<le> 0"
  then have nw: "no_wait mw (cfg_services cfg ! k)" and kl: "k < length (cfg_services cfg)"
    by (simp_all add: no_wait_def)
  obtain sr tr1 where ss: "start_services w cfg mw = (sr, tr1)"
    by (cases "start_services w cfg mw")
  then have sl: "start_loop w mw (cfg_services cfg) 0 [] [] [] = (sr, tr1)"
    by (simp add: start_services_def)
  note nw_inv = start_loop_no_wait [OF sl kl nw]
  have nh: "\<forall>n. HttpGet k n \<notin> set tr1"
  proof
    fix n
    have "HttpGet (0 + k) n \<notin> set []" by simp
    with nw_inv have "HttpGet (0 + k) n \<notin> set tr1" by blast
    then show "HttpGet k n \<notin> set tr1" by simp
  qed
  have nok: "\<forall>meta' procs' ok. sr = Inr (meta', procs', ok) \<longrightarrow> \<not> ok \<and> length meta' \<le> Suc k"
  proof (intro allI impI)
    fix meta' procs' ok assume "sr = Inr (meta', procs', ok)"
    with nw_inv have "\<not> ok \<and> length meta' \<le> length ([] :: svc_entry list) + Suc k" by blast
    then show "\<not> ok \<and> length meta' \<le> Suc k" by simp
  qed
  from nok have nok': "\<forall>meta' procs' ok. sr = Inr (meta', procs', ok) \<longrightarrow> \<not> ok" by blast
  from run_tests_not_reached [OF ss nok'] obtain stops where st:
    "snd (main w cfg mw) = tr1 @ stops" "\<forall>e\<in>set stops. is_stop_event e"
    "\<forall>code rep. fst (main w cfg mw) = Exited code rep \<longrightarrow>
              code = 1 \<and> \<not> overall_passed rep \<and> rep_results rep = [] \<and>
              (\<exists>procs. sr = Inr (rep_services rep, procs, False))" by blast
  have tr1_ev: "\<forall>e\<in>set tr1. is_spawn e \<or> is_http e \<or> is_stop_event e"
    using start_loop_trace [OF sl] by auto
  have c1: "\<forall>n. HttpGet k n \<notin> set (snd (main w cfg mw))"
  proof
    fix n
    have "HttpGet k n \<notin> set stops" using st(2) by (metis is_stop_event.simps(4))
    with nh st(1) show "HttpGet k n \<notin> set (snd (main w cfg mw))" by simp
  qed
  have c2: "\<forall>e\<in>set (snd (main w cfg mw)). \<forall>j. \<not> is_test_event j e"
  proof (intro ballI allI)
    fix e j assume "e \<in> set (snd (main w cfg mw))"
    with st(1,2) tr1_ev have "is_spawn e \<or> is_http e \<or> is_stop_event e" by auto
    then show "\<not> is_test_event j e" by (cases e) auto
  qed
  have c3: "\<forall>code rep. fst (main w cfg mw) = Exited code rep \<longrightarrow>
           code = 1 \<and> \<not> overall_passed rep \<and> rep_results rep = [] \<and>
           rep_services rep \<noteq> [] \<and> \<not> se_healthy (last (rep_services rep)) \<and>
           length (rep_services rep) \<le> Suc k"
  proof (intro allI impI)
  fix code rep assume ex: "fst (main w cfg mw) = Exited code rep"
  with st(3) obtain procs where r: "code = 1" "\<not> overall_passed rep" "rep_results rep = []"
    "sr = Inr (rep_services rep, procs, False)" by blast
  from start_services_inv [OF ss [unfolded r(4)]]
  have "rep_services rep \<noteq> []" "\<not> se_healthy (last (rep_services rep))" by auto
  moreover from nok r(4) have "length (rep_services rep) \<le> Suc k" by blast
  ultimately show "code = 1 \<and> \<not> overall_passed rep \<and> rep_results rep = [] \<and>
           rep_services rep \<noteq> [] \<and> \<not> se_healthy (last (rep_services rep)) \<and>
           length (rep_services rep) \<le> Suc k" using r by simp
  qed
  show "(\<forall>n. HttpGet k n \<notin> set (snd (main w cfg mw))) \<and>
        (\<forall>e\<in>set (snd (main w cfg mw)). \<forall>j. \<not> is_test_event j e) \<and>
        (\<forall>code rep. fst (main w cfg mw) = Exited code rep \<longrightarrow>
           code = 1 \<and> \<not> overall_passed rep \<and> rep_results rep = [] \<and>
           rep_services rep \<noteq> [] \<and> \<not> se_healthy (last (rep_services rep)) \<and>
           length (rep_services rep) \<le> Suc k)"
    using c1 c2 c3 by (intro conjI)
  qed
  show ?thesis using p1 p2 p3 p4 p5 by (intro conjI)
qed

theorem zero_timeout_healthcheck_witness:
  "wait_http healthy_world 0 (Some ''pong'') 0 0 0 [] = (Inr False, [])
   \<and> effective_timeout 0 (cfg_services zero_timeout_config ! 0) = 0
   \<and> effective_timeout 5 (cfg_services zero_timeout_config ! 0) = 5
   \<and> main healthy_world zero_timeout_config 0
       = (Exited 1
           \<lparr>overall_passed = False,
              rep_services = [
                  \<lparr>se_name = ''backend'', se_healthy = False, se_duration = 101\<rparr>],
              rep_results = []\<rparr>,
          [Spawn 0, Terminate 0, Terminate 0])
   \<and> HttpGet 0 1 \<notin> set (snd (main healthy_world zero_timeout_config 0))"
proof -
  let ?svc = "cfg_services zero_timeout_config ! 0"
  note spec = zero_timeout_healthcheck [where timeout_sec = 0 and w = healthy_world and i = 0
      and expect = "Some ''pong''" and tr = "[]" and cfg = zero_timeout_config and svc = ?svc]
  have t: "hc_timeout ?svc = 0" by (simp add: zero_timeout_config_def backend_service_def)
  have a: "wait_http healthy_world 0 (Some ''pong'') 0 0 0 [] = (Inr False, [])"
    using spec [of 0, THEN conjunct1] by simp
  have e0: "effective_timeout 0 ?svc = 0"
    using spec [of 0, THEN conjunct2, THEN conjunct1] t by simp
  have e5: "effective_timeout 5 ?svc = 5"
    using spec [of 5, THEN conjunct2, THEN conjunct1] t by simp
  have m: "main healthy_world zero_timeout_config 0
       = (Exited 1
           \<lparr>overall_passed = False,
              rep_services = [
                  \<lparr>se_name = ''backend'', se_healthy = False, se_duration = 101\<rparr>],
              rep_results = []\<rparr>,
          [Spawn 0, Terminate 0, Terminate 0])"
    by (simp add: zero_timeout_config_def demo_defs)
  have pre: "0 < length (cfg_services zero_timeout_config) \<and>
             url_declared (cfg_services zero_timeout_config ! 0) \<and>
             hc_timeout (cfg_services zero_timeout_config ! 0) \<le> 0 \<and> (0::int) \<le> 0"
    by (simp add: zero_timeout_config_def backend_service_def url_declared_def)
  note run = spec [of 0, THEN conjunct2, THEN conjunct2, THEN conjunct2, THEN conjunct2,
      rule_format, OF pre]
  from run have "\<forall>n. HttpGet 0 n \<notin> set (snd (main healthy_world zero_timeout_config 0))"
    by (elim conjE)
  then have c: "HttpGet 0 1 \<notin> set (snd (main healthy_world zero_timeout_config 0))" by blast
  show ?thesis using a e0 e5 m c by (intro conjI)
qed

text \<open>
  The claim as stated fails under \<open>--max-service-wait 5\<close>: the service declares
  \<open>timeout_sec = 0\<close>, is probed once, is recorded healthy, and the test runs.
\<close>

theorem zero_timeout_healthcheck_counterexample:
  "hc_timeout (cfg_services zero_timeout_config ! 0) = 0
   \<and> url_declared (cfg_services zero_timeout_config ! 0)
   \<and> main healthy_world zero_timeout_config 5
       = (Exited 0
           \<lparr>overall_passed = True,
              rep_services = [
                  \<lparr>se_name = ''backend'', se_healthy = True, se_duration = 101\<rparr>],
              rep_results =
                [[(''type'', JStr ''raw''), (''returncode'', JInt 0),
                  (''summary'', JDict [(''stdout_tail'', JStr ''ok''), (''stderr_tail'', JStr [])]),
                  (''name'', JStr ''api'')]]\<rparr>,
          [Spawn 0, HttpGet 0 1, Install 0 0, Attempt 0 1, Terminate 0])"
  by (simp add: zero_timeout_config_def demo_defs)

text \<open>
  Claim C2 on the code. An exception during the start-up of a later service leaves
  \<open>main\<close> before the \<open>try\<close> block: in both runs below service 0 has been started and is
  never terminated. The first plan's second service has a \<open>start\<close> that is not a list
  (\<open>to_cmd_list\<close> raises \<open>ValueError\<close>); in the second run \<open>Popen\<close> raises for the second
  service.
\<close>

theorem startup_exception_leaks_started_service:
  "main healthy_world broken_second_config 0 = (Crashed ValueError, [Spawn 0, HttpGet 0 1])
   \<and> Terminate 0 \<notin> set (snd (main healthy_world broken_second_config 0))
   \<and> main second_spawn_fails_world demo_config 0 = (Crashed OSError, [Spawn 0, HttpGet 0 1])
   \<and> Terminate 0 \<notin> set (snd (main second_spawn_fails_world demo_config 0))"
  by (simp add: broken_second_config_def second_spawn_fails_world_def demo_defs)

lemma run_tests_trace:
  "run_tests w tests i acc all_ok tr = (r, tr') \<Longrightarrow>
   \<exists>evs. tr' = tr @ evs \<and> (\<forall>e\<in>set evs. \<exists>j. is_test_event j e)"
proof (induction tests arbitrary: i acc all_ok tr)
  case Nil
  then show ?case by simp
next
  case (Cons t rest)
  obtain r1 tr1 where r1: "run_one_test w i t tr = (r1, tr1)" by (cases "run_one_test w i t tr")
  from run_one_test_inv [OF r1] obtain evs1 where e1: "tr1 = tr @ evs1"
    "\<forall>e\<in>set evs1. is_test_event i e" by blast
  show ?case
  proof (cases r1)
    case (Inl e)
    with Cons.prems r1 have "tr' = tr1" by simp
    with e1 show ?thesis by blast
  next
    case (Inr res)
    with Cons.prems r1 have "run_tests w rest (Suc i) (acc @ [res])
        (if get_default res ''returncode'' (JInt 1) \<noteq> JInt 0 then False else all_ok) tr1 = (r, tr')"
      by simp
    from Cons.IH [OF this] obtain evs where e: "tr' = tr1 @ evs"
      "\<forall>e\<in>set evs. \<exists>j. is_test_event j e" by blast
    have "tr' = tr @ (evs1 @ evs)" using e(1) e1(1) by simp
    moreover have "\<forall>e\<in>set (evs1 @ evs). \<exists>j. is_test_event j e" using e(2) e1(2) by auto
    ultimately show ?thesis by blast
  qed
qed

text \<open>
  Once \<open>start_services\<close> has returned, every process started is terminated, on every path
  through \<open>main\<close>, an exception during the tests included.
\<close>

lemma teardown_after_startup:
  assumes "start_services w cfg mw = (Inr (metas, procs, ok), tr1)"
  shows "\<forall>p. Spawn p \<in> set (snd (main w cfg mw)) \<longrightarrow> Terminate p \<in> set (snd (main w cfg mw))"
proof (intro allI impI)
  fix p assume sp: "Spawn p \<in> set (snd (main w cfg mw))"
  from start_services_inv [OF assms] obtain evs where inv:
    "filter is_spawn evs = map Spawn procs"
    "tr1 = evs \<or> tr1 = stop_services w procs evs" by (auto split: if_splits)
  obtain rt tr2 where rt: "run_tests w (cfg_tests cfg) 0 [] True tr1 = (rt, tr2)"
    by (cases "run_tests w (cfg_tests cfg) 0 [] True tr1")
  from run_tests_trace [OF rt] obtain tevs where te: "tr2 = tr1 @ tevs"
    "\<forall>e\<in>set tevs. \<exists>j. is_test_event j e" by blast
  have tr: "snd (main w cfg mw) = stop_services w procs tr1 \<or>
            snd (main w cfg mw) = stop_services w procs tr2"
    using assms rt by (cases ok; cases rt) (auto simp: main_def)
  have terminated: "\<forall>q\<in>set procs. Terminate q \<in> set (snd (main w cfg mw))"
    using tr by (auto simp: stop_services_def)
  have "Spawn p \<in> set evs"
  proof -
    have "Spawn p \<notin> set tevs"
    proof
      assume "Spawn p \<in> set tevs"
      with te(2) obtain j where "is_test_event j (Spawn p)" by blast
      then show False by simp
    qed
    with sp tr te(1) inv(2) show ?thesis by (auto simp: stop_services_def)
  qed
  then have "Spawn p \<in> set (filter is_spawn evs)" by simp
  with inv(1) have "p \<in> set procs" by auto
  with terminated show "Terminate p \<in> set (snd (main w cfg mw))" by blast
qed

end
